theory Spec2Isabelle
  imports Main "HOL-Library.Code_Target_Nat"
begin

section \<open>JavaScript strings\<close>

text \<open>
  A JavaScript string is a sequence of UTF-16 code units, and \<open>length\<close>, \<open>indexOf\<close>,
  \<open>lastIndexOf\<close> and \<open>slice\<close> count code units. A code unit is modelled as a natural
  number (a real one is below 65536; nothing in the program does arithmetic on it), and
  \<open>str\<close> writes an ASCII literal as its code units.
\<close>

type_synonym code_unit = nat
type_synonym jsstring = "code_unit list"

definition str :: "string \<Rightarrow> jsstring" where
  "str s = map of_char s"

text \<open>The characters the program and the JSON grammar name.\<close>

definition LBRACE :: code_unit where "LBRACE = 123"
definition RBRACE :: code_unit where "RBRACE = 125"
definition LBRACKET :: code_unit where "LBRACKET = 91"
definition RBRACKET :: code_unit where "RBRACKET = 93"
definition QUOTE :: code_unit where "QUOTE = 34"
definition BACKSLASH :: code_unit where "BACKSLASH = 92"
definition COMMA :: code_unit where "COMMA = 44"
definition COLON :: code_unit where "COLON = 58"
definition NEWLINE :: code_unit where "NEWLINE = 10"

lemmas char_defs = LBRACE_def RBRACE_def LBRACKET_def RBRACKET_def QUOTE_def
  BACKSLASH_def COMMA_def COLON_def NEWLINE_def

text \<open>
  \<open>s.indexOf(c)\<close> and \<open>s.lastIndexOf(c)\<close> for a one-character pattern: the index of the
  first (last) occurrence, or \<open>-1\<close>.
\<close>

fun indexOf :: "jsstring \<Rightarrow> code_unit \<Rightarrow> int" where
  "indexOf [] c = - 1"
| "indexOf (x # xs) c =
     (if x = c then 0 else (let i = indexOf xs c in if i = - 1 then - 1 else i + 1))"

definition lastIndexOf :: "jsstring \<Rightarrow> code_unit \<Rightarrow> int" where
  "lastIndexOf s c =
     (let i = indexOf (rev s) c in if i = - 1 then - 1 else int (length s) - 1 - i)"

text \<open>
  \<open>s.slice(a, b)\<close>: a negative index counts from the end, both are clamped to the
  string, and an empty range gives the empty string.
\<close>

definition slice :: "jsstring \<Rightarrow> int \<Rightarrow> int \<Rightarrow> jsstring" where
  "slice s a b =
     (let n = int (length s);
          from = (if a < 0 then max (n + a) 0 else min a n);
          to = (if b < 0 then max (n + b) 0 else min b n)
      in take (nat (to - from)) (drop (nat from) s))"

text \<open>
  \<open>s.trim()\<close> removes the white space and line terminators of ECMAScript from both ends:
  TAB, LF, VT, FF, CR, SP, NBSP, the Unicode space separators, LS, PS and the BOM.
\<close>

definition js_whitespace :: "code_unit \<Rightarrow> bool" where
  "js_whitespace c =
     (c = 9 \<or> c = 10 \<or> c = 11 \<or> c = 12 \<or> c = 13 \<or> c = 32 \<or> c = 160 \<or> c = 5760
      \<or> (8192 \<le> c \<and> c \<le> 8202) \<or> c = 8232 \<or> c = 8233 \<or> c = 8239 \<or> c = 8287
      \<or> c = 12288 \<or> c = 65279)"

definition trim :: "jsstring \<Rightarrow> jsstring" where
  "trim s = rev (dropWhile js_whitespace (rev (dropWhile js_whitespace s)))"

text \<open>\<open>pieces.join('\n')\<close> on an array of strings.\<close>

fun join_newline :: "jsstring list \<Rightarrow> jsstring" where
  "join_newline [] = []"
| "join_newline [x] = x"
| "join_newline (x # y # ys) = x @ NEWLINE # join_newline (y # ys)"

section \<open>JSON values\<close>

text \<open>
  The values the program handles are the ones \<open>JSON.parse\<close> builds: \<open>null\<close>, booleans,
  numbers, strings, arrays and objects. An object is the list of its own properties, each
  key once, in the order \<open>Object.keys\<close> gives them. A number is kept as a JSON numeral that
  denotes it. The program never computes with a number: it tests whether one is zero and
  it prints one. The rounding of numerals to IEEE doubles is therefore left out of the
  model, so that two numerals of one double are two values here, and a numeral too small
  for a double is not zero.
\<close>

datatype json =
    JNull
  | JBool bool
  | JNum jsstring
  | JStr jsstring
  | JArr "json list"
  | JObj "(jsstring \<times> json) list"

definition is_digit :: "code_unit \<Rightarrow> bool" where
  "is_digit c = (48 \<le> c \<and> c \<le> 57)"

text \<open>A numeral denotes zero when its digits before the exponent are all \<open>0\<close>.\<close>

definition numeral_is_zero :: "jsstring \<Rightarrow> bool" where
  "numeral_is_zero n =
     (filter (\<lambda>c. 49 \<le> c \<and> c \<le> 57) (takeWhile (\<lambda>c. c \<noteq> 101 \<and> c \<noteq> 69) n) = [])"

text \<open>
  \<open>!v\<close>: the falsy values among these are \<open>null\<close>, \<open>false\<close>, zero and the empty string;
  every array and object is truthy. \<open>undefined\<close>, the other falsy value the program
  meets, is \<open>None\<close> of an option type where it can occur.
\<close>

fun falsy :: "json \<Rightarrow> bool" where
  "falsy JNull = True"
| "falsy (JBool b) = (\<not> b)"
| "falsy (JNum n) = numeral_is_zero n"
| "falsy (JStr s) = (s = [])"
| "falsy (JArr xs) = False"
| "falsy (JObj kvs) = False"

section \<open>The text-piece collector\<close>

text \<open>
  \<open>/text|content|message|output/i.test(k)\<close>: some substring of \<open>k\<close> equals one of the four
  words up to case. Without the \<open>u\<close> flag a case-insensitive match compares upper-cased code
  units, and a code unit from 128 on never matches an ASCII letter, so only the ASCII
  letters of \<open>k\<close> are folded.
\<close>

definition fold_case :: "code_unit \<Rightarrow> code_unit" where
  "fold_case c = (if 65 \<le> c \<and> c \<le> 90 then c + 32 else c)"

fun starts_with :: "jsstring \<Rightarrow> jsstring \<Rightarrow> bool" where
  "starts_with [] s = True"
| "starts_with (w # ws) [] = False"
| "starts_with (w # ws) (c # cs) = (w = c \<and> starts_with ws cs)"

fun occurs_in :: "jsstring \<Rightarrow> jsstring \<Rightarrow> bool" where
  "occurs_in w [] = (w = [])"
| "occurs_in w (c # cs) = (starts_with w (c # cs) \<or> occurs_in w cs)"

definition text_key_test :: "jsstring \<Rightarrow> bool" where
  "text_key_test k =
     (let lk = map fold_case k
      in occurs_in (str ''text'') lk \<or> occurs_in (str ''content'') lk
         \<or> occurs_in (str ''message'') lk \<or> occurs_in (str ''output'') lk)"

text \<open>
  \<open>collectTextPieces(obj, out)\<close> of \<open>src/server.js\<close>. The array \<open>out\<close> is mutated in place
  and returned; the model passes it in and returns it with the pushed strings appended.
  The branches are the source's, in its order: falsy, string, array, object, anything
  else. In the object loop a string under a text-like key is pushed, and then the value
  is walked whatever the key and whatever its type.
\<close>

fun collectTextPieces :: "json \<Rightarrow> jsstring list \<Rightarrow> jsstring list"
  and collect_elements :: "json list \<Rightarrow> jsstring list \<Rightarrow> jsstring list"
  and collect_keys :: "(jsstring \<times> json) list \<Rightarrow> jsstring list \<Rightarrow> jsstring list"
where
  "collectTextPieces obj out =
     (if falsy obj then out
      else (case obj of
              JStr s \<Rightarrow> out @ [s]
            | JArr els \<Rightarrow> collect_elements els out
            | JObj kvs \<Rightarrow> collect_keys kvs out
            | _ \<Rightarrow> out))"
| "collect_elements [] out = out"
| "collect_elements (el # els) out = collect_elements els (collectTextPieces el out)"
| "collect_keys [] out = out"
| "collect_keys ((k, v) # kvs) out =
     collect_keys kvs
       (collectTextPieces v
          (case v of
             JStr s \<Rightarrow> if text_key_test k then out @ [s] else out
           | _ \<Rightarrow> out))"

section \<open>\<open>JSON.parse\<close>\<close>

text \<open>
  \<open>JSON.parse\<close> is the runtime's, not the repository's. It is modelled as a recursive-descent
  parser of the JSON grammar (ECMA-404, which ECMAScript's \<open>JSON.parse\<close> follows): white
  space is space, TAB, LF and CR; a value is an object, an array, a string, a number or one
  of \<open>true\<close>, \<open>false\<close>, \<open>null\<close>; after the value only white space may follow. Each parser
  returns what it read and the rest of the input, or \<open>None\<close> on a syntax error. The limits
  of an engine (the depth of nesting it can parse) are not modelled.
\<close>

definition json_whitespace :: "code_unit \<Rightarrow> bool" where
  "json_whitespace c = (c = 32 \<or> c = 9 \<or> c = 10 \<or> c = 13)"

definition skip_ws :: "jsstring \<Rightarrow> jsstring" where
  "skip_ws s = dropWhile json_whitespace s"

text \<open>
  A string after its opening quote: characters from U+0020 on other than the quote and the
  backslash, and after a backslash one of the quote, the backslash, the slash, \<open>b\<close>, \<open>f\<close>,
  \<open>n\<close>, \<open>r\<close>, \<open>t\<close>, or \<open>u\<close> with four hexadecimal digits, which name a code unit.
  The result is the string's value and what follows the closing quote.
\<close>

definition hex_digit :: "code_unit \<Rightarrow> nat option" where
  "hex_digit c =
     (if 48 \<le> c \<and> c \<le> 57 then Some (c - 48)
      else if 97 \<le> c \<and> c \<le> 102 then Some (c - 87)
      else if 65 \<le> c \<and> c \<le> 70 then Some (c - 55)
      else None)"

definition simple_escape :: "code_unit \<Rightarrow> code_unit option" where
  "simple_escape e =
     (if e = 34 then Some 34 else if e = 92 then Some 92 else if e = 47 then Some 47
      else if e = 98 then Some 8 else if e = 102 then Some 12 else if e = 110 then Some 10
      else if e = 114 then Some 13 else if e = 116 then Some 9 else None)"

definition unicode_escape ::
  "code_unit \<Rightarrow> code_unit \<Rightarrow> code_unit \<Rightarrow> code_unit \<Rightarrow> code_unit option" where
  "unicode_escape h1 h2 h3 h4 =
     (case hex_digit h1 of None \<Rightarrow> None | Some a \<Rightarrow>
      case hex_digit h2 of None \<Rightarrow> None | Some b \<Rightarrow>
      case hex_digit h3 of None \<Rightarrow> None | Some c \<Rightarrow>
      case hex_digit h4 of None \<Rightarrow> None | Some d \<Rightarrow>
        Some (((a * 16 + b) * 16 + c) * 16 + d))"

definition push_unit :: "code_unit \<Rightarrow> (jsstring \<times> jsstring) option \<Rightarrow> (jsstring \<times> jsstring) option" where
  "push_unit c r = (case r of None \<Rightarrow> None | Some (s, rest) \<Rightarrow> Some (c # s, rest))"

fun parse_chars :: "jsstring \<Rightarrow> (jsstring \<times> jsstring) option" where
  "parse_chars [] = None"
| "parse_chars (c # cs) =
     (if c = QUOTE then Some ([], cs)
      else if c = BACKSLASH then
        (case cs of
           [] \<Rightarrow> None
         | e # r \<Rightarrow>
             if e = 117 then
               (case r of
                  h1 # h2 # h3 # h4 # r' \<Rightarrow>
                    (case unicode_escape h1 h2 h3 h4 of
                       None \<Rightarrow> None
                     | Some u \<Rightarrow> push_unit u (parse_chars r'))
                | _ \<Rightarrow> None)
             else
               (case simple_escape e of
                  None \<Rightarrow> None
                | Some u \<Rightarrow> push_unit u (parse_chars r)))
      else if c < 32 then None
      else push_unit c (parse_chars cs))"

text \<open>
  The string parser returns a shorter text than it was given; the value parser below
  terminates by that.
\<close>

lemma push_unit_Some:
  "push_unit c x = Some (k, r) \<longleftrightarrow> (\<exists>k'. x = Some (k', r) \<and> k = c # k')"
  by (auto simp: push_unit_def split: option.splits)

lemma parse_chars_shorter: "parse_chars s = Some (k, r) \<Longrightarrow> length r < length s"
proof (induction s arbitrary: k rule: parse_chars.induct)
  case 1
  then show ?case by simp
next
  case (2 c cs)
  show ?case
  proof (cases "c = QUOTE")
    case True
    with "2.prems" show ?thesis by simp
  next
    case nq: False
    show ?thesis
    proof (cases "c = BACKSLASH")
      case False
      with nq "2.prems" obtain k' where "parse_chars cs = Some (k', r)" "\<not> c < 32"
        by (auto simp: push_unit_Some split: if_splits)
      with "2.IH"(3) [OF nq False] show ?thesis by fastforce
    next
      case bs: True
      show ?thesis
      proof (cases cs)
        case Nil
        with nq bs "2.prems" show ?thesis by simp
      next
        case (Cons e r0)
        show ?thesis
        proof (cases "e = 117")
          case False
          with nq bs Cons "2.prems" obtain k' u
            where "simple_escape e = Some u" "parse_chars r0 = Some (k', r)"
            by (auto simp: push_unit_Some split: option.splits)
          with "2.IH"(2) [OF nq bs Cons False] have "length r < length r0" by simp
          with Cons show ?thesis by simp
        next
          case True
          with nq bs Cons "2.prems" obtain h1 h2 h3 h4 r' u k'
            where r0: "r0 = h1 # h2 # h3 # h4 # r'"
              and hx: "unicode_escape h1 h2 h3 h4 = Some u"
              and pc: "parse_chars r' = Some (k', r)"
            by (auto simp: push_unit_Some split: list.splits option.splits)
          from "2.IH"(1) [OF nq bs Cons True r0 refl refl refl hx pc]
          have "length r < length r'" .
          with r0 Cons show ?thesis by simp
        qed
      qed
    qed
  qed
qed

text \<open>
  A number: an optional minus, an integer part (\<open>0\<close>, or digits that start with a non-zero
  one), an optional fraction and an optional exponent, each with at least one digit.
\<close>

definition parse_fraction :: "jsstring \<Rightarrow> (jsstring \<times> jsstring) option" where
  "parse_fraction s =
     (case s of
        [] \<Rightarrow> Some ([], s)
      | c # r \<Rightarrow>
          if c = 46 then
            (if takeWhile is_digit r = [] then None
             else Some (c # takeWhile is_digit r, dropWhile is_digit r))
          else Some ([], s))"

definition parse_sign :: "jsstring \<Rightarrow> jsstring \<times> jsstring" where
  "parse_sign s = (case s of [] \<Rightarrow> ([], s) | x # r \<Rightarrow> if x = 43 \<or> x = 45 then ([x], r) else ([], s))"

definition parse_exponent :: "jsstring \<Rightarrow> (jsstring \<times> jsstring) option" where
  "parse_exponent s =
     (case s of
        [] \<Rightarrow> Some ([], s)
      | c # r \<Rightarrow>
          if c = 101 \<or> c = 69 then
            (case parse_sign r of
               (sg, r') \<Rightarrow>
                 if takeWhile is_digit r' = [] then None
                 else Some (c # sg @ takeWhile is_digit r', dropWhile is_digit r'))
          else Some ([], s))"

definition parse_integer :: "jsstring \<Rightarrow> (jsstring \<times> jsstring) option" where
  "parse_integer s =
     (case s of
        [] \<Rightarrow> None
      | d # r \<Rightarrow>
          if d = 48 then Some ([d], r)
          else if is_digit d then Some (takeWhile is_digit s, dropWhile is_digit s)
          else None)"

definition parse_number :: "jsstring \<Rightarrow> (jsstring \<times> jsstring) option" where
  "parse_number s =
     (case (case s of [] \<Rightarrow> ([], s) | c # r \<Rightarrow> if c = 45 then ([c], r) else ([], s)) of
        (neg, s1) \<Rightarrow>
          (case parse_integer s1 of
             None \<Rightarrow> None
           | Some (ip, s2) \<Rightarrow>
               (case parse_fraction s2 of
                  None \<Rightarrow> None
                | Some (fp, s3) \<Rightarrow>
                    (case parse_exponent s3 of
                       None \<Rightarrow> None
                     | Some (ep, s4) \<Rightarrow> Some (neg @ ip @ fp @ ep, s4)))))"

definition parse_literal :: "jsstring \<Rightarrow> json \<Rightarrow> jsstring \<Rightarrow> (json \<times> jsstring) option" where
  "parse_literal w v s = (if starts_with w s then Some (v, drop (length w) s) else None)"

text \<open>
  An object from its members in source order. A key written twice keeps its first place
  and its last value; \<open>Object.keys\<close> lists the keys that are array indices (canonical
  numerals below \<open>2^32 - 1\<close>) first, in ascending order, and then the others in the order
  they were added.
\<close>

definition decimal_value :: "jsstring \<Rightarrow> int" where
  "decimal_value k = foldl (\<lambda>n c. 10 * n + (int c - 48)) 0 k"

definition is_array_index :: "jsstring \<Rightarrow> bool" where
  "is_array_index k =
     (k \<noteq> [] \<and> list_all is_digit k \<and> (k = [48] \<or> hd k \<noteq> 48) \<and> decimal_value k < 4294967295)"

fun define_property :: "jsstring \<Rightarrow> json \<Rightarrow> (jsstring \<times> json) list \<Rightarrow> (jsstring \<times> json) list" where
  "define_property k v [] = [(k, v)]"
| "define_property k v ((k', v') # kvs) =
     (if k' = k then (k, v) # kvs else (k', v') # define_property k v kvs)"

definition make_object :: "(jsstring \<times> json) list \<Rightarrow> json" where
  "make_object members =
     (let props = foldl (\<lambda>obj (k, v). define_property k v obj) [] members
      in JObj (sort_key (\<lambda>(k, v). decimal_value k) (filter (\<lambda>(k, v). is_array_index k) props)
               @ filter (\<lambda>(k, v). \<not> is_array_index k) props))"

text \<open>
  Values, the elements of an array after \<open>[\<close> or a comma, and the members of an object
  after \<open>{\<close> or a comma. The tests \<open>length r < length s\<close> are there for the termination
  proof only: they always hold (\<open>parse_elements_unguarded\<close> and
  \<open>parse_members_unguarded\<close> below).
\<close>

lemma skip_ws_length: "length (skip_ws s) \<le> length s"
  by (simp add: skip_ws_def length_dropWhile_le)

function (sequential) parse_value :: "jsstring \<Rightarrow> (json \<times> jsstring) option"
  and parse_elements :: "jsstring \<Rightarrow> (json list \<times> jsstring) option"
  and parse_members :: "jsstring \<Rightarrow> ((jsstring \<times> json) list \<times> jsstring) option"
where
  "parse_value s =
     (case skip_ws s of
        [] \<Rightarrow> None
      | c # cs \<Rightarrow>
          if c = LBRACE then
            (case skip_ws cs of
               [] \<Rightarrow> None
             | d # ds \<Rightarrow>
                 if d = RBRACE then Some (JObj [], ds)
                 else (case parse_members cs of
                         None \<Rightarrow> None
                       | Some (kvs, r) \<Rightarrow> Some (make_object kvs, r)))
          else if c = LBRACKET then
            (case skip_ws cs of
               [] \<Rightarrow> None
             | d # ds \<Rightarrow>
                 if d = RBRACKET then Some (JArr [], ds)
                 else (case parse_elements cs of
                         None \<Rightarrow> None
                       | Some (vs, r) \<Rightarrow> Some (JArr vs, r)))
          else if c = QUOTE then
            (case parse_chars cs of None \<Rightarrow> None | Some (x, r) \<Rightarrow> Some (JStr x, r))
          else if c = 116 then parse_literal (str ''true'') (JBool True) (c # cs)
          else if c = 102 then parse_literal (str ''false'') (JBool False) (c # cs)
          else if c = 110 then parse_literal (str ''null'') JNull (c # cs)
          else (case parse_number (c # cs) of None \<Rightarrow> None | Some (n, r) \<Rightarrow> Some (JNum n, r)))"
| "parse_elements s =
     (case parse_value s of
        None \<Rightarrow> None
      | Some (v, r) \<Rightarrow>
          if length r < length s then
            (case skip_ws r of
               [] \<Rightarrow> None
             | c # cs \<Rightarrow>
                 if c = COMMA then
                   (case parse_elements cs of
                      None \<Rightarrow> None
                    | Some (vs, r') \<Rightarrow> Some (v # vs, r'))
                 else if c = RBRACKET then Some ([v], cs)
                 else None)
          else None)"
| "parse_members s =
     (case skip_ws s of
        [] \<Rightarrow> None
      | q # qs \<Rightarrow>
          if q = QUOTE then
            (case parse_chars qs of
               None \<Rightarrow> None
             | Some (k, r0) \<Rightarrow>
                 (case skip_ws r0 of
                    [] \<Rightarrow> None
                  | col # r1 \<Rightarrow>
                      if col = COLON then
                        (case parse_value r1 of
                           None \<Rightarrow> None
                         | Some (v, r2) \<Rightarrow>
                             if length r2 < length r1 then
                               (case skip_ws r2 of
                                  [] \<Rightarrow> None
                                | c # cs \<Rightarrow>
                                    if c = COMMA then
                                      (case parse_members cs of
                                         None \<Rightarrow> None
                                       | Some (kvs, r') \<Rightarrow> Some ((k, v) # kvs, r'))
                                    else if c = RBRACE then Some ([(k, v)], cs)
                                    else None)
                             else None)
                      else None))
          else None)"
  by pat_completeness auto

termination
proof (relation "measures [\<lambda>x. case x of Inl s \<Rightarrow> length s | Inr (Inl s) \<Rightarrow> length s | Inr (Inr s) \<Rightarrow> length s,
                          \<lambda>x. case x of Inl s \<Rightarrow> 0 | Inr (Inl s) \<Rightarrow> 1 | Inr (Inr s) \<Rightarrow> 1]", goal_cases)
  case 1 show ?case by simp
next
  case (2 s c cs d ds)
  then show ?case using skip_ws_length [of s] by simp
next
  case (3 s c cs d ds)
  then show ?case using skip_ws_length [of s] by simp
next
  case (4 s)
  then show ?case by simp
next
  case (5 s x v r c cs)
  then show ?case using skip_ws_length [of r] by simp
next
  case (6 s q qs x k r0 col r1)
  then show ?case using skip_ws_length [of s] skip_ws_length [of r0] parse_chars_shorter [of qs k r0] by simp
next
  case (7 s q qs x k r0 col r1 y v r2 c cs)
  then show ?case using skip_ws_length [of s] skip_ws_length [of r0] skip_ws_length [of r2] parse_chars_shorter [of qs k r0] by simp
qed

text \<open>
  \<open>JSON.parse(s)\<close> returns the value or throws a \<open>SyntaxError\<close>. The wording of the error's
  message is the engine's; the model names the error by the text that raised it. The
  other error the handler's \<open>try\<close> blocks can catch is the \<open>RangeError\<close> of a serialisation, kept
  with its message.
\<close>

datatype js_error = SyntaxError jsstring | RangeError jsstring

definition JSON_parse :: "jsstring \<Rightarrow> js_error + json" where
  "JSON_parse s =
     (case parse_value s of
        None \<Rightarrow> Inl (SyntaxError s)
      | Some (v, r) \<Rightarrow> if skip_ws r = [] then Inr v else Inl (SyntaxError s))"

section \<open>\<open>JSON.stringify\<close>\<close>

text \<open>
  \<open>JSON.stringify\<close> of a JSON value, without indentation. In a string the quote, the
  backslash and the control characters are escaped (the short escapes where JSON has one,
  \<open>u\<close> and four lower-case hexadecimal digits otherwise), and so is a surrogate that is
  not part of a pair. A number is written as the numeral the model holds.
\<close>

definition hex_char :: "nat \<Rightarrow> code_unit" where
  "hex_char d = (if d < 10 then 48 + d else 87 + d)"

definition hex_escape :: "code_unit \<Rightarrow> jsstring" where
  "hex_escape c =
     [BACKSLASH, 117, hex_char (c div 4096 mod 16), hex_char (c div 256 mod 16),
      hex_char (c div 16 mod 16), hex_char (c mod 16)]"

definition quote_unit :: "code_unit \<Rightarrow> jsstring" where
  "quote_unit c =
     (if c = 8 then [BACKSLASH, 98] else if c = 9 then [BACKSLASH, 116]
      else if c = 10 then [BACKSLASH, 110] else if c = 12 then [BACKSLASH, 102]
      else if c = 13 then [BACKSLASH, 114] else if c = QUOTE then [BACKSLASH, QUOTE]
      else if c = BACKSLASH then [BACKSLASH, BACKSLASH]
      else if c < 32 then hex_escape c
      else [c])"

definition leading_surrogate :: "code_unit \<Rightarrow> bool" where
  "leading_surrogate c = (55296 \<le> c \<and> c \<le> 56319)"

definition trailing_surrogate :: "code_unit \<Rightarrow> bool" where
  "trailing_surrogate c = (56320 \<le> c \<and> c \<le> 57343)"

fun quote_units :: "jsstring \<Rightarrow> jsstring" where
  "quote_units [] = []"
| "quote_units [c] =
     (if leading_surrogate c \<or> trailing_surrogate c then hex_escape c else quote_unit c)"
| "quote_units (c # d # cs) =
     (if leading_surrogate c then
        (if trailing_surrogate d then c # d # quote_units cs
         else hex_escape c @ quote_units (d # cs))
      else if trailing_surrogate c then hex_escape c @ quote_units (d # cs)
      else quote_unit c @ quote_units (d # cs))"

definition quote_string :: "jsstring \<Rightarrow> jsstring" where
  "quote_string s = QUOTE # quote_units s @ [QUOTE]"

fun JSON_stringify :: "json \<Rightarrow> jsstring"
  and stringify_elements :: "json list \<Rightarrow> jsstring"
  and stringify_members :: "(jsstring \<times> json) list \<Rightarrow> jsstring"
where
  "JSON_stringify JNull = str ''null''"
| "JSON_stringify (JBool b) = (if b then str ''true'' else str ''false'')"
| "JSON_stringify (JNum n) = n"
| "JSON_stringify (JStr s) = quote_string s"
| "JSON_stringify (JArr els) = LBRACKET # stringify_elements els @ [RBRACKET]"
| "JSON_stringify (JObj kvs) = LBRACE # stringify_members kvs @ [RBRACE]"
| "stringify_elements [] = []"
| "stringify_elements [el] = JSON_stringify el"
| "stringify_elements (el # el' # els) =
     JSON_stringify el @ COMMA # stringify_elements (el' # els)"
| "stringify_members [] = []"
| "stringify_members [(k, v)] = quote_string k @ COLON # JSON_stringify v"
| "stringify_members ((k, v) # kv # kvs) =
     quote_string k @ COLON # JSON_stringify v @ COMMA # stringify_members (kv # kvs)"

section \<open>The salvage parser\<close>

text \<open>
  \<open>res.json(v)\<close> serialises \<open>v\<close> with \<open>JSON.stringify\<close> and then sends the text. The
  serialisation throws a \<open>RangeError\<close> when the value is nested deeper than the stack allows or
  its text is longer than a string can be, and nothing has been sent then. How deep and how
  long is the engine's, so the method is an input of the model: a function from the value
  to the error thrown, \<open>None\<close> when the value was sent.
\<close>

type_synonym res_json = "json \<Rightarrow> js_error option"

text \<open>
  The body of each of the three \<open>try\<close> blocks: the two statements
  \<open>const extractedJSON = JSON.parse(jsonText); return res.json(extractedJSON);\<close>. It gives
  the value that was sent, or what the \<open>catch\<close> receives: the error of the parse, or the
  error of the serialisation of a value that did parse.
\<close>

definition try_parse_and_send :: "res_json \<Rightarrow> jsstring \<Rightarrow> js_error + json" where
  "try_parse_and_send res_json jsonText =
     (case JSON_parse jsonText of
        Inl thrown \<Rightarrow> Inl thrown
      | Inr extractedJSON \<Rightarrow>
          (case res_json extractedJSON of
             None \<Rightarrow> Inr extractedJSON
           | Some thrown \<Rightarrow> Inl thrown))"

text \<open>
  Lines 144 to 187 of the handler in \<open>src/server.js\<close>: the \<open>try\<close> on \<open>joinedText\<close>, and in its
  \<open>catch\<close> the two heuristics, each a guarded \<open>try\<close> of its own. A step returns the texts it
  handed to \<open>JSON.parse\<close>, in order, with what it sent; \<open>salvage\<close> returns all the texts
  tried and either the value of the first \<open>try\<close> that sent one or \<open>parseErr\<close>, the error caught
  from the first \<open>try\<close>.
\<close>

definition salvage_brace :: "res_json \<Rightarrow> jsstring \<Rightarrow> jsstring list \<times> json option" where
  "salvage_brace res_json joinedText =
     (let firstBrace = indexOf joinedText LBRACE;
          lastBrace = lastIndexOf joinedText RBRACE
      in if firstBrace \<noteq> - 1 \<and> lastBrace \<noteq> - 1 \<and> lastBrace > firstBrace then
           (let candidateJson = slice joinedText firstBrace (lastBrace + 1)
            in case try_parse_and_send res_json candidateJson of
                 Inr extractedJSON \<Rightarrow> ([candidateJson], Some extractedJSON)
               | Inl braceErr \<Rightarrow> ([candidateJson], None))
         else ([], None))"

definition salvage_last_close :: "res_json \<Rightarrow> jsstring \<Rightarrow> jsstring list \<times> json option" where
  "salvage_last_close res_json joinedText =
     (let lastClose = lastIndexOf joinedText RBRACE
      in if lastClose > 0 then
           (let salvage = slice joinedText 0 (lastClose + 1)
            in case try_parse_and_send res_json salvage of
                 Inr extractedJSON \<Rightarrow> ([salvage], Some extractedJSON)
               | Inl salvageErr \<Rightarrow> ([salvage], None))
         else ([], None))"

definition salvage :: "res_json \<Rightarrow> jsstring \<Rightarrow> jsstring list \<times> (js_error + json)" where
  "salvage res_json joinedText =
     (case try_parse_and_send res_json joinedText of
        Inr extractedJSON \<Rightarrow> ([joinedText], Inr extractedJSON)
      | Inl parseErr \<Rightarrow>
          (case salvage_brace res_json joinedText of
             (tried1, Some extractedJSON) \<Rightarrow> (joinedText # tried1, Inr extractedJSON)
           | (tried1, None) \<Rightarrow>
               (case salvage_last_close res_json joinedText of
                  (tried2, Some extractedJSON) \<Rightarrow>
                    (joinedText # tried1 @ tried2, Inr extractedJSON)
                | (tried2, None) \<Rightarrow> (joinedText # tried1 @ tried2, Inl parseErr))))"

section \<open>The \<open>/process-pdf\<close> handler\<close>

text \<open>
  The handler's inputs are the uploaded file (\<open>req.file\<close>, absent or a buffer of bytes), the
  environment variables it reads, the upstream service, a function from the call made
  to what \<open>axios.post\<close> gives: the response's \<open>data\<close>, or the error it throws, and the
  \<open>res.json\<close> that sends an extracted value. The handler's
  outputs are the response it sends and the trace of what it did on the way: encoding the
  document, posting to the upstream, handing a text to \<open>JSON.parse\<close>. Console output is
  not modelled, and the error bodies the handler builds itself are taken to be sent. The request body is fixed text around two values, which is all the model
  keeps of it: the encoded document and \<open>maxOutputTokens\<close>; \<open>toString('base64')\<close> and
  \<open>parseInt(_, 10)\<close> are kept as constructors, since the handler never looks at their
  results.
\<close>

type_synonym buffer = "char list"

record environment =
  GEMINI_API_KEY :: "jsstring option"
  GEMINI_MODEL :: "jsstring option"
  MAX_OUTPUT_TOKENS :: "jsstring option"
  AXIOS_TIMEOUT_MS :: "jsstring option"

datatype base64 = Base64 buffer

datatype js_number = ParseInt10 jsstring

record post_call =
  url :: jsstring
  inline_data :: base64
  maxOutputTokens :: js_number
  timeout :: js_number

record axios_error =
  response_data :: "json option"
  error_message :: jsstring

type_synonym upstream = "post_call \<Rightarrow> axios_error + json"

datatype event = Encoded buffer | Posted post_call | Parsed jsstring

record salvage_failure =
  error :: jsstring
  message :: js_error
  rawPreview :: jsstring
  piecesCollected :: nat
  usageMetadata :: json
  candidatePreview :: jsstring

datatype body =
    Extracted json
  | ErrorOnly jsstring
  | NoCandidate jsstring json
  | SalvageFailure salvage_failure
  | UpstreamFailure jsstring json

record response =
  status :: nat
  body :: body

text \<open>\<open>v || d\<close> for an environment variable: unset and empty both give the default.\<close>

definition or_default :: "jsstring option \<Rightarrow> jsstring \<Rightarrow> jsstring" where
  "or_default v d = (case v of None \<Rightarrow> d | Some s \<Rightarrow> if s = [] then d else s)"

text \<open>
  \<open>v?.name\<close> for the three property names the handler reads. None of them is a property of
  a string, an array, a number or a boolean, or inherited by an object, so only an object's
  own property can answer; \<open>None\<close> is \<open>undefined\<close>.
\<close>

definition get_property :: "jsstring \<Rightarrow> json \<Rightarrow> json option" where
  "get_property name v = (case v of JObj kvs \<Rightarrow> map_of kvs name | _ \<Rightarrow> None)"

text \<open>
  \<open>v?.[0]\<close>: the first element of an array, the first character of a string, the property
  \<open>"0"\<close> of an object; \<open>undefined\<close> for \<open>null\<close>, \<open>undefined\<close> and everything else.
\<close>

definition first_of :: "json option \<Rightarrow> json option" where
  "first_of v =
     (case v of
        Some (JArr (el # els)) \<Rightarrow> Some el
      | Some (JStr (c # cs)) \<Rightarrow> Some (JStr [c])
      | Some (JObj kvs) \<Rightarrow> map_of kvs (str ''0'')
      | _ \<Rightarrow> None)"

definition first_candidate :: "json \<Rightarrow> json option" where
  "first_candidate data = first_of (get_property (str ''candidates'') data)"

text \<open>\<open>response.data?.usageMetadata || response.data?.usage || null\<close>.\<close>

definition truthy_or :: "json option \<Rightarrow> json \<Rightarrow> json" where
  "truthy_or a b = (case a of None \<Rightarrow> b | Some v \<Rightarrow> if falsy v then b else v)"

definition usage_of :: "json \<Rightarrow> json" where
  "usage_of data =
     truthy_or (get_property (str ''usageMetadata'') data)
       (truthy_or (get_property (str ''usage'') data) JNull)"

text \<open>
  Lines 133 to 136: the pieces are collected from the candidate and then, into the same
  array, from the whole response; the joined text is the pieces joined by newlines and
  trimmed.
\<close>

definition textPieces_of :: "json \<Rightarrow> json \<Rightarrow> jsstring list" where
  "textPieces_of candidate data = collectTextPieces data (collectTextPieces candidate [])"

definition joinedText_of :: "jsstring list \<Rightarrow> jsstring" where
  "joinedText_of textPieces = trim (join_newline textPieces)"

text \<open>Lines 126 to 187: from the upstream's \<open>response.data\<close> to the response sent.\<close>

definition process_response :: "res_json \<Rightarrow> json \<Rightarrow> event list \<times> response" where
  "process_response res_json data =
     (case first_candidate data of
        None \<Rightarrow>
          ([], \<lparr>status = 500, body = NoCandidate (str ''No candidate returned from Gemini'') data\<rparr>)
      | Some candidate \<Rightarrow>
          if falsy candidate then
            ([], \<lparr>status = 500,
                  body = NoCandidate (str ''No candidate returned from Gemini'') data\<rparr>)
          else
            (let textPieces = textPieces_of candidate data;
                 joinedText = joinedText_of textPieces;
                 usage = usage_of data
             in case salvage res_json joinedText of
                  (tried, Inr extractedJSON) \<Rightarrow>
                    (map Parsed tried, \<lparr>status = 200, body = Extracted extractedJSON\<rparr>)
                | (tried, Inl parseErr) \<Rightarrow>
                    (map Parsed tried,
                     \<lparr>status = 500,
                      body = SalvageFailure
                        \<lparr>error = str ''Failed to parse JSON from Gemini response'',
                         message = parseErr,
                         rawPreview = slice joinedText 0 32000,
                         piecesCollected = length textPieces,
                         usageMetadata = usage,
                         candidatePreview = slice (JSON_stringify candidate) 0 32000\<rparr>\<rparr>)))"

text \<open>
  Lines 64 to 118: the call the handler makes, from the environment, the key and the
  document.
\<close>

definition build_call :: "environment \<Rightarrow> jsstring \<Rightarrow> buffer \<Rightarrow> post_call" where
  "build_call env key pdfBuffer =
     (let pdfBase64 = Base64 pdfBuffer;
          MODEL = or_default (GEMINI_MODEL env) (str ''gemini-2.5-flash'')
      in \<lparr>url = str ''https://generativelanguage.googleapis.com/v1beta/models/''
                  @ MODEL @ str '':generateContent?key='' @ key,
            inline_data = pdfBase64,
            maxOutputTokens = ParseInt10 (or_default (MAX_OUTPUT_TOKENS env) (str ''65535'')),
            timeout = ParseInt10 (or_default (AXIOS_TIMEOUT_MS env) (str ''220000''))\<rparr>)"

text \<open>
  The whole handler, with \<open>req.file\<close> and \<open>res.json\<close> for the request and the response. A
  missing file answers at once; a missing or empty key answers after the encoding; an
  error thrown by \<open>axios.post\<close> is caught by the outer \<open>catch\<close>, whose \<open>detail\<close> is
  \<open>error.response?.data ?? error.message\<close>.
\<close>

definition handler ::
  "environment \<Rightarrow> upstream \<Rightarrow> res_json \<Rightarrow> buffer option \<Rightarrow> event list \<times> response" where
  "handler env post res_json file =
     (case file of
        None \<Rightarrow> ([], \<lparr>status = 400, body = ErrorOnly (str ''No PDF file uploaded.'')\<rparr>)
      | Some pdfBuffer \<Rightarrow>
          (let key = or_default (GEMINI_API_KEY env) []
           in if key = [] then
                ([Encoded pdfBuffer],
                 \<lparr>status = 500, body = ErrorOnly (str ''GEMINI_API_KEY not set in .env'')\<rparr>)
              else
                (let call = build_call env key pdfBuffer
                 in case post call of
                      Inl err \<Rightarrow>
                        ([Encoded pdfBuffer, Posted call],
                         \<lparr>status = 500,
                          body = UpstreamFailure (str ''Failed to process PDF with Gemini AI.'')
                                   (case response_data err of
                                      None \<Rightarrow> JStr (error_message err)
                                    | Some d \<Rightarrow> if d = JNull then JStr (error_message err) else d)\<rparr>)
                    | Inr data \<Rightarrow>
                        (case process_response res_json data of
                           (events, res) \<Rightarrow>
                             (Encoded pdfBuffer # Posted call # events, res)))))"

section \<open>Upstream responses\<close>

text \<open>
  The shape of the upstream's answer in the specification's end-to-end scenario,
  \<open>{"candidates":[{"content":{"parts":[{"text": t}]}}]}\<close>, and a statement of the schema's
  shape, used as concrete inputs below.
\<close>

definition gemini_response :: "jsstring \<Rightarrow> json" where
  "gemini_response t =
     JObj [(str ''candidates'',
            JArr [JObj [(str ''content'',
                         JObj [(str ''parts'', JArr [JObj [(str ''text'', JStr t)]])])]])]"

definition example_statement :: json where
  "example_statement =
     JObj [(str ''statement_info'', JObj [(str ''bank_name'', JStr (str ''ACME''))]),
           (str ''account_summary'', JObj [(str ''total_deposits'', JStr (str ''10''))]),
           (str ''transactions'', JArr [JObj [(str ''amount'', JStr (str ''-5''))]])]"

definition example_env :: environment where
  "example_env =
     \<lparr>GEMINI_API_KEY = Some (str ''key''), GEMINI_MODEL = None,
      MAX_OUTPUT_TOKENS = None, AXIOS_TIMEOUT_MS = None\<rparr>"

text \<open>
  An answer whose text is no JSON at all, with usage metadata beside the candidates.
\<close>

definition refusal_response :: json where
  "refusal_response =
     JObj [(str ''candidates'',
            JArr [JObj [(str ''content'',
                         JObj [(str ''parts'', JArr [JObj [(str ''text'', JStr (str ''Sorry''))]])])]]),
           (str ''usageMetadata'', JObj [(str ''totalTokenCount'', JNum (str ''7''))])]"

text \<open>
  Two payloads differ only in their \<open>usageMetadata\<close> subtree when both are one payload with
  that property set: given a value in its place, or removed. \<open>usage_pieces\<close> is what the
  collector gathers from the subtree, nothing when there is none.
\<close>

definition set_usage :: "json option \<Rightarrow> json \<Rightarrow> json" where
  "set_usage usage data =
     (case data of
        JObj kvs \<Rightarrow>
          JObj (concat (map (\<lambda>(k, v). if k = str ''usageMetadata''
                                       then (case usage of None \<Rightarrow> [] | Some u \<Rightarrow> [(k, u)])
                                       else [(k, v)]) kvs))
      | _ \<Rightarrow> data)"

definition usage_pieces :: "json option \<Rightarrow> jsstring list" where
  "usage_pieces usage = (case usage of None \<Rightarrow> [] | Some u \<Rightarrow> collectTextPieces u [])"

text \<open>
  A \<open>res.json\<close> whose serialisation runs out of stack on a value nested deeper than \<open>limit\<close>,
  and one that sends every value.
\<close>

fun depth :: "json \<Rightarrow> nat"
  and depth_elements :: "json list \<Rightarrow> nat"
  and depth_members :: "(jsstring \<times> json) list \<Rightarrow> nat"
where
  "depth (JArr els) = Suc (depth_elements els)"
| "depth (JObj kvs) = Suc (depth_members kvs)"
| "depth v = 0"
| "depth_elements [] = 0"
| "depth_elements (el # els) = max (depth el) (depth_elements els)"
| "depth_members [] = 0"
| "depth_members ((k, v) # kvs) = max (depth v) (depth_members kvs)"

definition stack_limited :: "nat \<Rightarrow> res_json" where
  "stack_limited limit v =
     (if limit < depth v then Some (RangeError (str ''Maximum call stack size exceeded''))
      else None)"

definition sends_all :: res_json where
  "sends_all v = None"

text \<open>
  A response with the places blanked where the handler echoes usage metadata: the
  \<open>usageMetadata\<close> field of the salvage-failure body and the \<open>rawResponse\<close> of the
  no-candidate body.
\<close>

definition hide_usage :: "response \<Rightarrow> response" where
  "hide_usage res =
     res\<lparr>body :=
           (case body res of
              SalvageFailure f \<Rightarrow> SalvageFailure (f\<lparr>usageMetadata := JNull\<rparr>)
            | NoCandidate m d \<Rightarrow> NoCandidate m JNull
            | b \<Rightarrow> b)\<rparr>"

section \<open>The strategies as the specification words them\<close>

text \<open>
  The specification describes the salvage parser as an ordered chain of strategies, each
  naming the text it would hand to the JSON parser when it applies, tried in order until the
  first parse succeeds. These definitions follow its words, with indices as positions in
  the text and the span as a sublist; they are compared with \<open>salvage\<close> below.
\<close>

definition first_index :: "code_unit \<Rightarrow> jsstring \<Rightarrow> nat option" where
  "first_index c s =
     (if c \<in> set s then Some (length (takeWhile (\<lambda>x. x \<noteq> c) s)) else None)"

definition last_index :: "code_unit \<Rightarrow> jsstring \<Rightarrow> nat option" where
  "last_index c s =
     (if c \<in> set s then Some (length s - 1 - length (takeWhile (\<lambda>x. x \<noteq> c) (rev s)))
      else None)"

definition inclusive_span :: "jsstring \<Rightarrow> nat \<Rightarrow> nat \<Rightarrow> jsstring" where
  "inclusive_span s i j = take (j + 1 - i) (drop i s)"

definition direct_parse :: "jsstring \<Rightarrow> jsstring option" where
  "direct_parse t = Some t"

definition outer_brace_extraction :: "jsstring \<Rightarrow> jsstring option" where
  "outer_brace_extraction t =
     (case (first_index LBRACE t, last_index RBRACE t) of
        (Some i, Some j) \<Rightarrow> if i < j then Some (inclusive_span t i j) else None
      | _ \<Rightarrow> None)"

definition trailing_truncation_recovery :: "jsstring \<Rightarrow> jsstring option" where
  "trailing_truncation_recovery t =
     (case last_index RBRACE t of
        Some j \<Rightarrow> if 0 < j then Some (inclusive_span t 0 j) else None
      | None \<Rightarrow> None)"

fun first_success ::
  "(jsstring \<Rightarrow> jsstring option) list \<Rightarrow> jsstring \<Rightarrow> jsstring list \<times> json option" where
  "first_success [] t = ([], None)"
| "first_success (strategy # later) t =
     (case strategy t of
        None \<Rightarrow> first_success later t
      | Some candidate \<Rightarrow>
          (case JSON_parse candidate of
             Inr v \<Rightarrow> ([candidate], Some v)
           | Inl e \<Rightarrow>
               (case first_success later t of
                  (tried, found) \<Rightarrow> (candidate # tried, found))))"

definition salvage_chain :: "jsstring \<Rightarrow> jsstring list \<times> (js_error + json)" where
  "salvage_chain t =
     (case first_success [direct_parse, outer_brace_extraction, trailing_truncation_recovery] t of
        (tried, Some v) \<Rightarrow> (tried, Inr v)
      | (tried, None) \<Rightarrow> (tried, Inl (SyntaxError t)))"

text \<open>
  The salvage parser with the trailing-truncation strategy removed: the \<open>try\<close> on the whole
  text, then the outer-brace extraction, then the failure with the first error.
\<close>

definition salvage_without_last_close :: "res_json \<Rightarrow> jsstring \<Rightarrow> js_error + json" where
  "salvage_without_last_close res_json joinedText =
     (case try_parse_and_send res_json joinedText of
        Inr extractedJSON \<Rightarrow> Inr extractedJSON
      | Inl parseErr \<Rightarrow>
          (case snd (salvage_brace res_json joinedText) of
             Some extractedJSON \<Rightarrow> Inr extractedJSON
           | None \<Rightarrow> Inl parseErr))"

section \<open>Notions used in the proofs\<close>

text \<open>
  A parser that turned \<open>s\<close> into the rest \<open>r\<close> has read a non-empty prefix of \<open>s\<close>; \<open>consumed\<close>
  also names the last character read. A value's text \<open>opens an object\<close> when its first
  character after white space is \<open>{\<close>, and \<open>value_read\<close> says of what the value parser read
  that it ends with \<open>}\<close> only if it opens an object.
\<close>

definition consumed :: "jsstring \<Rightarrow> jsstring \<Rightarrow> code_unit \<Rightarrow> bool" where
  "consumed s r z = (\<exists>p. s = p @ r \<and> p \<noteq> [] \<and> last p = z)"

definition opens_object :: "jsstring \<Rightarrow> bool" where
  "opens_object p = (case skip_ws p of [] \<Rightarrow> False | c # cs \<Rightarrow> c = LBRACE)"

definition value_read :: "jsstring \<Rightarrow> jsstring \<Rightarrow> bool" where
  "value_read s r = (\<exists>p. s = p @ r \<and> p \<noteq> [] \<and> (last p \<noteq> RBRACE \<or> opens_object p))"

text \<open>What the key test of the object loop pushes for one property.\<close>

definition push_text :: "jsstring \<Rightarrow> json \<Rightarrow> jsstring list" where
  "push_text k v = (case v of JStr s \<Rightarrow> if text_key_test k then [s] else [] | _ \<Rightarrow> [])"

declare parse_value.simps [simp del] parse_elements.simps [simp del] parse_members.simps [simp del]

section \<open>What a successful parse has read\<close>

text \<open>
  Every parser returns a suffix of its input. A number ends with a digit, a string with its
  closing quote, an array with \<open>]\<close> and an object with \<open>}\<close>; and the text of a value can end
  with \<open>}\<close> only when its first character after white space is \<open>{\<close>.
\<close>

lemma consumed_Cons: "consumed s r z \<Longrightarrow> consumed (c # s) r z"
  unfolding consumed_def by (metis append_Cons last_ConsR list.distinct(1))

lemma consumed_append: "consumed s r z \<Longrightarrow> consumed (p @ s) r z"
  by (induction p) (auto intro: consumed_Cons)

lemma consumed_single: "consumed (z # r) r z"
  unfolding consumed_def by (metis append_Cons append_Nil last.simps list.distinct(1))

lemma consumed_shorter: "consumed s r z \<Longrightarrow> length r < length s"
  unfolding consumed_def by auto

lemma parse_chars_consumed: "parse_chars s = Some (k, r) \<Longrightarrow> consumed s r QUOTE"
proof (induction s arbitrary: k rule: parse_chars.induct)
  case 1
  then show ?case by simp
next
  case (2 c cs)
  show ?case
  proof (cases "c = QUOTE")
    case True
    with "2.prems" show ?thesis by (simp add: consumed_single)
  next
    case nq: False
    show ?thesis
    proof (cases "c = BACKSLASH")
      case False
      with nq "2.prems" obtain k' where "parse_chars cs = Some (k', r)" "\<not> c < 32"
        by (auto simp: push_unit_Some split: if_splits)
      with "2.IH"(3) [OF nq False] show ?thesis by (auto intro: consumed_Cons)
    next
      case bs: True
      show ?thesis
      proof (cases cs)
        case Nil
        with nq bs "2.prems" show ?thesis by simp
      next
        case (Cons e r0)
        show ?thesis
        proof (cases "e = 117")
          case False
          with nq bs Cons "2.prems" obtain k' u
            where "simple_escape e = Some u" "parse_chars r0 = Some (k', r)"
            by (auto simp: push_unit_Some split: option.splits)
          with "2.IH"(2) [OF nq bs Cons False] have "consumed r0 r QUOTE" by simp
          with Cons show ?thesis by (auto intro: consumed_Cons)
        next
          case True
          with nq bs Cons "2.prems" obtain h1 h2 h3 h4 r' u k'
            where r0: "r0 = h1 # h2 # h3 # h4 # r'"
              and hx: "unicode_escape h1 h2 h3 h4 = Some u"
              and pc: "parse_chars r' = Some (k', r)"
            by (auto simp: push_unit_Some split: list.splits option.splits)
          from "2.IH"(1) [OF nq bs Cons True r0 refl refl refl hx pc]
          have "consumed r' r QUOTE" .
          from consumed_append [OF this, of "[c, e, h1, h2, h3, h4]"] r0 Cons
          show ?thesis by simp
        qed
      qed
    qed
  qed
qed

lemma last_takeWhile_digit:
  "takeWhile is_digit s \<noteq> [] \<Longrightarrow> is_digit (last (takeWhile is_digit s))"
  by (metis last_in_set set_takeWhileD)

lemma parse_integer_reads:
  assumes "parse_integer s = Some (ip, r)"
  shows "s = ip @ r \<and> ip \<noteq> [] \<and> is_digit (last ip)"
proof (cases s)
  case Nil
  with assms show ?thesis by (simp add: parse_integer_def)
next
  case (Cons d ds)
  show ?thesis
  proof (cases "d = 48")
    case True
    with assms Cons show ?thesis by (auto simp: parse_integer_def is_digit_def)
  next
    case False
    with assms Cons have dg: "is_digit d" and ip: "ip = takeWhile is_digit s"
      and r: "r = dropWhile is_digit s"
      by (auto simp: parse_integer_def split: if_splits)
    from dg Cons have "takeWhile is_digit s \<noteq> []" by simp
    with ip r last_takeWhile_digit [of s] show ?thesis by simp
  qed
qed

lemma parse_fraction_reads:
  assumes "parse_fraction s = Some (fp, r)"
  shows "s = fp @ r \<and> (fp = [] \<or> is_digit (last fp))"
proof (cases s)
  case Nil
  with assms show ?thesis by (simp add: parse_fraction_def)
next
  case (Cons c cs)
  show ?thesis
  proof (cases "c = 46")
    case False
    with assms Cons show ?thesis by (simp add: parse_fraction_def)
  next
    case True
    with assms Cons have ne: "takeWhile is_digit cs \<noteq> []"
      and fp: "fp = c # takeWhile is_digit cs" and r: "r = dropWhile is_digit cs"
      by (auto simp: parse_fraction_def split: if_splits)
    with Cons last_takeWhile_digit [of cs] show ?thesis by simp
  qed
qed

lemma parse_sign_reads: "parse_sign s = (sg, r) \<Longrightarrow> s = sg @ r"
  by (auto simp: parse_sign_def split: list.splits if_splits)

lemma parse_exponent_reads:
  assumes "parse_exponent s = Some (ep, r)"
  shows "s = ep @ r \<and> (ep = [] \<or> is_digit (last ep))"
proof (cases s)
  case Nil
  with assms show ?thesis by (simp add: parse_exponent_def)
next
  case (Cons c cs)
  show ?thesis
  proof (cases "c = 101 \<or> c = 69")
    case False
    with assms Cons show ?thesis by (simp add: parse_exponent_def)
  next
    case True
    obtain sg r' where sg: "parse_sign cs = (sg, r')" by (cases "parse_sign cs")
    with True assms Cons have ne: "takeWhile is_digit r' \<noteq> []"
      and ep: "ep = c # sg @ takeWhile is_digit r'" and r: "r = dropWhile is_digit r'"
      by (auto simp: parse_exponent_def split: if_splits)
    from parse_sign_reads [OF sg] have "cs = sg @ r'" .
    with ne ep r Cons last_takeWhile_digit [of r'] show ?thesis by simp
  qed
qed

lemma parse_number_reads:
  assumes "parse_number s = Some (n, r)"
  shows "s = n @ r \<and> n \<noteq> [] \<and> is_digit (last n)"
proof -
  obtain neg s1 where neg: "(case s of [] \<Rightarrow> ([], s) | c # r \<Rightarrow> if c = 45 then ([c], r) else ([], s)) = (neg, s1)"
    by (cases "(case s of [] \<Rightarrow> ([], s) | c # r \<Rightarrow> if c = 45 then ([c], r) else ([], s))")
  then have s: "s = neg @ s1" by (auto split: list.splits if_splits)
  from assms neg obtain ip s2 fp s3 ep
    where ip: "parse_integer s1 = Some (ip, s2)"
      and fp: "parse_fraction s2 = Some (fp, s3)"
      and ep: "parse_exponent s3 = Some (ep, r)"
      and n: "n = neg @ ip @ fp @ ep"
    by (auto simp: parse_number_def split: option.splits)
  from parse_integer_reads [OF ip] parse_fraction_reads [OF fp] parse_exponent_reads [OF ep]
  show ?thesis using s n by (auto simp: last_append)
qed


lemma skip_ws_split:
  assumes "skip_ws s = c # cs"
  obtains w where "s = w @ c # cs" "skip_ws w = []" "\<not> json_whitespace c"
proof
  show "s = takeWhile json_whitespace s @ c # cs"
    using assms takeWhile_dropWhile_id [of json_whitespace s] by (simp add: skip_ws_def)
  show "skip_ws (takeWhile json_whitespace s) = []"
    by (simp add: skip_ws_def dropWhile_eq_Nil_conv) (meson set_takeWhileD)
  show "\<not> json_whitespace c"
    using assms hd_dropWhile [of json_whitespace s] by (simp add: skip_ws_def)
qed

lemma skip_ws_append: "skip_ws w = [] \<Longrightarrow> skip_ws (w @ s) = skip_ws s"
  by (simp add: skip_ws_def dropWhile_append dropWhile_eq_Nil_conv)

lemma skip_ws_Cons: "\<not> json_whitespace c \<Longrightarrow> skip_ws (c # cs) = c # cs"
  by (simp add: skip_ws_def)

lemma skip_ws_consumed: "skip_ws s = c # cs \<Longrightarrow> consumed s cs c"
  by (erule skip_ws_split) (auto intro: consumed_append consumed_single)

lemma consumedD: "consumed s r z \<Longrightarrow> \<exists>p. s = p @ r"
  by (auto simp: consumed_def)

lemma value_read_object:
  assumes "skip_ws s = LBRACE # cs" and "cs = q @ r"
  shows "value_read s r"
proof -
  from assms(1) obtain w where w: "s = w @ LBRACE # cs" "skip_ws w = []"
    "\<not> json_whitespace LBRACE" by (rule skip_ws_split)
  have "opens_object (w @ LBRACE # q)"
    using w(2,3) by (simp add: opens_object_def skip_ws_append skip_ws_Cons)
  moreover have "s = (w @ LBRACE # q) @ r" using w(1) assms(2) by simp
  ultimately show ?thesis unfolding value_read_def by blast
qed

lemma value_read_other:
  assumes "skip_ws s = c # cs" and "consumed (c # cs) r z" and "z \<noteq> RBRACE"
  shows "value_read s r"
proof -
  from assms(1) obtain w where w: "s = w @ c # cs" by (rule skip_ws_split)
  from consumed_append [OF assms(2), of w] w have "consumed s r z" by simp
  with assms(3) show ?thesis unfolding value_read_def consumed_def by blast
qed

lemma starts_with_append: "starts_with w s \<Longrightarrow> s = w @ drop (length w) s"
  by (induction w s rule: starts_with.induct) auto

lemma parse_literal_consumed:
  assumes "parse_literal w v s = Some (v', r)" and "w \<noteq> []"
  shows "consumed s r (last w)"
proof -
  from assms(1) have "starts_with w s" and r: "r = drop (length w) s"
    by (auto simp: parse_literal_def split: if_splits)
  from starts_with_append [OF this(1)] r have "s = w @ r" by simp
  with assms(2) show ?thesis unfolding consumed_def by blast
qed

lemma parse_reads:
  "parse_value s = Some (v, r) \<Longrightarrow> value_read s r"
  "parse_elements s1 = Some (vs, r1) \<Longrightarrow> consumed s1 r1 RBRACKET"
  "parse_members s2 = Some (kvs, r2) \<Longrightarrow> consumed s2 r2 RBRACE"
proof (induction s and s1 and s2 arbitrary: v r and vs r1 and kvs r2
    rule: parse_value_parse_elements_parse_members.induct)
  case (1 s)
  from "1.prems" obtain c cs where sk: "skip_ws s = c # cs"
    by (cases "skip_ws s") (auto simp: parse_value.simps [of s])
  note pv = "1.prems" [unfolded parse_value.simps [of s] sk list.case]
  show ?case
  proof (cases "c = LBRACE")
    case True
    with pv obtain d ds where sk2: "skip_ws cs = d # ds"
      by (cases "skip_ws cs") auto
    show ?thesis
    proof (cases "d = RBRACE")
      case True
      with pv \<open>c = LBRACE\<close> sk2 have "r = ds" by simp
      with consumedD [OF skip_ws_consumed [OF sk2]] obtain q where "cs = q @ r" by blast
      with sk \<open>c = LBRACE\<close> show ?thesis by (auto intro: value_read_object)
    next
      case False
      with pv \<open>c = LBRACE\<close> sk2 obtain kvs where "parse_members cs = Some (kvs, r)"
        by (auto split: option.splits)
      from "1.IH"(1) [OF sk \<open>c = LBRACE\<close> sk2 False this]
      obtain q where "cs = q @ r" by (blast dest: consumedD)
      with sk \<open>c = LBRACE\<close> show ?thesis by (auto intro: value_read_object)
    qed
  next
    case nb: False
    show ?thesis
    proof (cases "c = LBRACKET")
      case True
      with pv nb obtain d ds where sk2: "skip_ws cs = d # ds"
        by (cases "skip_ws cs") auto
      have "consumed cs r RBRACKET"
      proof (cases "d = RBRACKET")
        case True
        with pv nb \<open>c = LBRACKET\<close> sk2 have "r = ds" by simp
        with skip_ws_consumed [OF sk2] True show ?thesis by simp
      next
        case False
        with pv nb \<open>c = LBRACKET\<close> sk2 obtain vs where "parse_elements cs = Some (vs, r)"
          by (auto split: option.splits)
        from "1.IH"(2) [OF sk nb \<open>c = LBRACKET\<close> sk2 False this] show ?thesis .
      qed
      then have "consumed (c # cs) r RBRACKET" by (rule consumed_Cons)
      then show ?thesis by (rule value_read_other [OF sk]) (simp add: char_defs)
    next
      case nk: False
      show ?thesis
      proof (cases "c = QUOTE")
        case True
        with pv nb nk obtain x where "parse_chars cs = Some (x, r)"
          by (auto split: option.splits)
        then have "consumed (c # cs) r QUOTE"
          by (intro consumed_Cons parse_chars_consumed)
        then show ?thesis by (rule value_read_other [OF sk]) (simp add: char_defs)
      next
        case nq: False
        consider (t) "c = 116" | (f) "c = 102" | (n) "c = 110"
          | (num) "c \<noteq> 116" "c \<noteq> 102" "c \<noteq> 110" by blast
        then show ?thesis
        proof cases
          case t
          with pv nb nk nq have "parse_literal (str ''true'') (JBool True) (c # cs) = Some (v, r)"
            by (simp add: char_defs)
          from parse_literal_consumed [OF this]
          have "consumed (c # cs) r (last (str ''true''))" by (simp add: str_def)
          then show ?thesis by (rule value_read_other [OF sk]) (simp add: char_defs str_def)
        next
          case f
          with pv nb nk nq have "parse_literal (str ''false'') (JBool False) (c # cs) = Some (v, r)"
            by (simp add: char_defs)
          from parse_literal_consumed [OF this]
          have "consumed (c # cs) r (last (str ''false''))" by (simp add: str_def)
          then show ?thesis by (rule value_read_other [OF sk]) (simp add: char_defs str_def)
        next
          case n
          with pv nb nk nq have "parse_literal (str ''null'') JNull (c # cs) = Some (v, r)"
            by (simp add: char_defs)
          from parse_literal_consumed [OF this]
          have "consumed (c # cs) r (last (str ''null''))" by (simp add: str_def)
          then show ?thesis by (rule value_read_other [OF sk]) (simp add: char_defs str_def)
        next
          case num
          with pv nb nk nq obtain n where "parse_number (c # cs) = Some (n, r)"
            by (auto split: option.splits)
          from parse_number_reads [OF this]
          have "consumed (c # cs) r (last n)" and "is_digit (last n)"
            by (auto simp: consumed_def)
          from this(2) have "last n \<noteq> RBRACE" by (auto simp: is_digit_def char_defs)
          with \<open>consumed (c # cs) r (last n)\<close> show ?thesis
            by (intro value_read_other [OF sk])
        qed
      qed
    qed
  qed
next
  case (2 s)
  from "2.prems" obtain v r0 where pv: "parse_value s = Some (v, r0)"
    by (auto simp: parse_elements.simps [of s] split: option.splits)
  note pe = "2.prems" [unfolded parse_elements.simps [of s] pv option.case prod.case]
  from pe have len: "length r0 < length s" by (auto split: if_splits)
  from pe len obtain c cs where sk: "skip_ws r0 = c # cs"
    by (cases "skip_ws r0") auto
  from "2.IH"(1) [OF pv] obtain p where p: "s = p @ r0"
    by (auto simp: value_read_def)
  from skip_ws_consumed [OF sk] have r0: "consumed r0 cs c" .
  show ?case
  proof (cases "c = COMMA")
    case True
    with pe len sk obtain vs' where "parse_elements cs = Some (vs', r1)"
      by (auto split: option.splits)
    from "2.IH"(2) [OF pv refl len sk True this] have "consumed cs r1 RBRACKET" .
    moreover from r0 obtain q where "r0 = q @ cs" by (blast dest: consumedD)
    ultimately show ?thesis using p consumed_append [of cs r1 RBRACKET "p @ q"] by simp
  next
    case False
    with pe len sk have "c = RBRACKET" "r1 = cs" by (auto split: if_splits)
    with r0 p show ?thesis using consumed_append [of r0 cs c p] by simp
  qed
next
  case (3 s)
  from "3.prems" obtain q qs where sk: "skip_ws s = q # qs"
    by (cases "skip_ws s") (auto simp: parse_members.simps [of s])
  note pm = "3.prems" [unfolded parse_members.simps [of s] sk list.case]
  from pm have q: "q = QUOTE" by (auto split: if_splits)
  with pm obtain k r0 where pc: "parse_chars qs = Some (k, r0)"
    by (auto split: option.splits)
  note pm1 = pm [unfolded pc option.case prod.case]
  from pm1 q obtain col rc where sk1: "skip_ws r0 = col # rc"
    by (cases "skip_ws r0") auto
  note pm2 = pm1 [unfolded sk1 list.case]
  from pm2 q have col: "col = COLON" by (auto split: if_splits)
  with pm2 q obtain v rv where pv: "parse_value rc = Some (v, rv)"
    by (auto split: option.splits)
  note pm3 = pm2 [unfolded pv option.case prod.case]
  from pm3 q col have len: "length rv < length rc" by (auto split: if_splits)
  with pm3 q col obtain c cs where sk2: "skip_ws rv = c # cs"
    by (cases "skip_ws rv") auto
  from skip_ws_consumed [OF sk] obtain p0 where p0: "s = p0 @ qs" by (blast dest: consumedD)
  from parse_chars_consumed [OF pc] obtain p1 where p1: "qs = p1 @ r0" by (blast dest: consumedD)
  from skip_ws_consumed [OF sk1] obtain p2 where p2: "r0 = p2 @ rc" by (blast dest: consumedD)
  from "3.IH"(1) [OF sk q pc refl sk1 col pv] obtain p3 where p3: "rc = p3 @ rv"
    by (auto simp: value_read_def)
  from skip_ws_consumed [OF sk2] have rv: "consumed rv cs c" .
  have s: "s = (p0 @ p1 @ p2 @ p3) @ rv" using p0 p1 p2 p3 by simp
  show ?case
  proof (cases "c = COMMA")
    case True
    with pm3 q col len sk2 obtain kvs' where "parse_members cs = Some (kvs', r2)"
      by (auto split: option.splits)
    from "3.IH"(2) [OF sk q pc refl sk1 col pv refl len sk2 True this]
    have "consumed cs r2 RBRACE" .
    moreover from rv obtain p4 where "rv = p4 @ cs" by (blast dest: consumedD)
    ultimately show ?thesis
      using s consumed_append [of cs r2 RBRACE "p0 @ p1 @ p2 @ p3 @ p4"] by simp
  next
    case False
    with pm3 q col len sk2 have "c = RBRACE" "r2 = cs" by (auto split: if_splits)
    with rv s show ?thesis using consumed_append [of rv cs c "p0 @ p1 @ p2 @ p3"] by simp
  qed
qed

text \<open>So the length tests in the value parser never fail, and it is the plain parser.\<close>

lemma parse_value_shorter: "parse_value s = Some (v, r) \<Longrightarrow> length r < length s"
  by (drule parse_reads(1)) (auto simp: value_read_def)

lemma parse_elements_unguarded:
  "parse_elements s =
     (case parse_value s of
        None \<Rightarrow> None
      | Some (v, r) \<Rightarrow>
          (case skip_ws r of
             [] \<Rightarrow> None
           | c # cs \<Rightarrow>
               if c = COMMA then
                 (case parse_elements cs of
                    None \<Rightarrow> None
                  | Some (vs, r') \<Rightarrow> Some (v # vs, r'))
               else if c = RBRACKET then Some ([v], cs)
               else None))"
  by (subst parse_elements.simps) (auto split: option.split dest: parse_value_shorter)

lemma parse_members_unguarded:
  "parse_members s =
     (case skip_ws s of
        [] \<Rightarrow> None
      | q # qs \<Rightarrow>
          if q = QUOTE then
            (case parse_chars qs of
               None \<Rightarrow> None
             | Some (k, r0) \<Rightarrow>
                 (case skip_ws r0 of
                    [] \<Rightarrow> None
                  | col # r1 \<Rightarrow>
                      if col = COLON then
                        (case parse_value r1 of
                           None \<Rightarrow> None
                         | Some (v, r2) \<Rightarrow>
                             (case skip_ws r2 of
                                [] \<Rightarrow> None
                              | c # cs \<Rightarrow>
                                  if c = COMMA then
                                    (case parse_members cs of
                                       None \<Rightarrow> None
                                     | Some (kvs, r') \<Rightarrow> Some ((k, v) # kvs, r'))
                                  else if c = RBRACE then Some ([(k, v)], cs)
                                  else None))
                      else None))
          else None)"
  by (subst parse_members.simps)
     (auto split: option.split list.split dest: parse_value_shorter)

section \<open>Indices and slices\<close>

lemma indexOf_ge: "- 1 \<le> indexOf s c"
  by (induction s) (auto simp: Let_def)

lemma indexOf_absent: "c \<notin> set s \<Longrightarrow> indexOf s c = - 1"
  by (induction s) (auto simp: Let_def)

lemma indexOf_first: "c \<notin> set w \<Longrightarrow> indexOf (w @ c # t) c = int (length w)"
  by (induction w) (auto simp: Let_def)

lemma indexOf_present: "c \<in> set s \<Longrightarrow> indexOf s c = int (length (takeWhile (\<lambda>x. x \<noteq> c) s))"
  by (induction s) (auto simp: Let_def)

lemma indexOf_minus1_iff: "indexOf s c = - 1 \<longleftrightarrow> c \<notin> set s"
  using indexOf_present [of c s] indexOf_absent [of c s] by auto

lemma lastIndexOf_absent: "c \<notin> set s \<Longrightarrow> lastIndexOf s c = - 1"
  by (simp add: lastIndexOf_def indexOf_absent)

lemma lastIndexOf_last: "c \<notin> set t \<Longrightarrow> lastIndexOf (p @ c # t) c = int (length p)"
  using indexOf_first [of c "rev t" "rev p"] by (simp add: lastIndexOf_def Let_def)

lemma lastIndexOf_minus1_iff: "lastIndexOf s c = - 1 \<longleftrightarrow> c \<notin> set s"
proof
  assume "lastIndexOf s c = - 1"
  show "c \<notin> set s"
  proof
    assume "c \<in> set s"
    then obtain p t where "s = p @ c # t" "c \<notin> set t" by (meson split_list_last)
    with lastIndexOf_last [of c t p] \<open>lastIndexOf s c = - 1\<close> show False by simp
  qed
qed (rule lastIndexOf_absent)

lemma slice_prefix: "slice (p @ t) 0 (int (length p)) = p"
  by (simp add: slice_def Let_def min_def)

lemma slice_middle: "slice (w @ m @ t) (int (length w)) (int (length w) + int (length m)) = m"
  by (simp add: slice_def Let_def min_def)

lemma slice_length: "0 \<le> n \<Longrightarrow> length (slice s 0 n) \<le> nat n"
  by (simp add: slice_def Let_def)

section \<open>The third strategy never finds what the second missed\<close>

lemma skip_ws_Nil_iff: "skip_ws r = [] \<longleftrightarrow> list_all json_whitespace r"
  by (simp add: skip_ws_def dropWhile_eq_Nil_conv list_all_iff)

lemma parse_value_skip_ws: "skip_ws a = skip_ws b \<Longrightarrow> parse_value a = parse_value b"
  by (simp add: parse_value.simps [of a] parse_value.simps [of b])

text \<open>A text that parses and ends with \<open>}\<close> is an object's, after white space only.\<close>

lemma JSON_parse_closing_brace:
  assumes ok: "JSON_parse s = Inr v" and ne: "s \<noteq> []" and last: "last s = RBRACE"
  obtains w cs where "s = w @ LBRACE # cs" "skip_ws w = []" "JSON_parse (LBRACE # cs) = Inr v"
proof -
  from ok obtain r where pv: "parse_value s = Some (v, r)" and r: "skip_ws r = []"
    by (auto simp: JSON_parse_def split: option.splits if_splits)
  from parse_reads(1) [OF pv] obtain p
    where p: "s = p @ r" "p \<noteq> []" "last p \<noteq> RBRACE \<or> opens_object p"
    by (auto simp: value_read_def)
  have "r = []"
  proof (rule ccontr)
    assume "r \<noteq> []"
    with p(1) last have "last r = RBRACE" by simp
    moreover from r \<open>r \<noteq> []\<close> have "json_whitespace (last r)"
      by (simp add: skip_ws_Nil_iff list_all_iff)
    ultimately show False by (simp add: json_whitespace_def char_defs)
  qed
  with p last have "opens_object s" by simp
  then obtain cs where sk: "skip_ws s = LBRACE # cs"
    by (auto simp: opens_object_def split: list.splits)
  then obtain w where w: "s = w @ LBRACE # cs" "skip_ws w = []" "\<not> json_whitespace LBRACE"
    by (rule skip_ws_split)
  have "skip_ws (LBRACE # cs) = skip_ws s"
    using sk w(3) by (simp add: skip_ws_Cons)
  from parse_value_skip_ws [OF this] pv \<open>r = []\<close>
  have "JSON_parse (LBRACE # cs) = Inr v" by (simp add: JSON_parse_def skip_ws_def)
  with w(1,2) show thesis by (rule that)
qed

lemma try_parse_and_send_Inr:
  "try_parse_and_send res_json t = Inr v \<longleftrightarrow> JSON_parse t = Inr v \<and> res_json v = None"
  by (auto simp: try_parse_and_send_def split: sum.splits option.splits)

lemma try_parse_and_send_parse_error:
  "JSON_parse t = Inl e \<Longrightarrow> try_parse_and_send res_json t = Inl e"
  by (simp add: try_parse_and_send_def)

lemma try_parse_and_send_thrown:
  "JSON_parse t = Inr v \<Longrightarrow> res_json v = Some e \<Longrightarrow> try_parse_and_send res_json t = Inl e"
  by (simp add: try_parse_and_send_def)

lemma salvage_last_close_implies_brace:
  assumes "snd (salvage_last_close res_json joinedText) = Some v"
  shows "snd (salvage_brace res_json joinedText) = Some v"
proof -
  define j where "j = lastIndexOf joinedText RBRACE"
  from assms have pos: "0 < j"
    and sent: "try_parse_and_send res_json (slice joinedText 0 (j + 1)) = Inr v"
    by (auto simp: salvage_last_close_def Let_def j_def split: if_splits sum.splits)
  from sent have ok: "JSON_parse (slice joinedText 0 (j + 1)) = Inr v"
    and send: "res_json v = None"
    by (simp_all add: try_parse_and_send_Inr)
  from pos have "RBRACE \<in> set joinedText"
    using lastIndexOf_absent [of RBRACE joinedText] by (auto simp: j_def)
  then obtain p t where jt: "joinedText = p @ RBRACE # t" and nt: "RBRACE \<notin> set t"
    by (meson split_list_last)
  from lastIndexOf_last [OF nt, of p] jt have j: "j = int (length p)" by (simp add: j_def)
  have pre: "slice joinedText 0 (j + 1) = p @ [RBRACE]"
    using slice_prefix [of "p @ [RBRACE]" t] jt j by (simp add: add.commute)
  from ok pre obtain w cs where w: "p @ [RBRACE] = w @ LBRACE # cs" "skip_ws w = []"
    and ok': "JSON_parse (LBRACE # cs) = Inr v"
    by (auto elim: JSON_parse_closing_brace [of "p @ [RBRACE]" v])
  have "cs \<noteq> []"
  proof
    assume "cs = []"
    with w(1) have "last (p @ [RBRACE]) = last (w @ [LBRACE])" by simp
    then show False by (simp add: char_defs)
  qed
  define cs' where "cs' = butlast cs"
  from \<open>cs \<noteq> []\<close> have e: "cs = cs' @ [last cs]" by (simp add: cs'_def)
  have "p @ [RBRACE] = (w @ LBRACE # cs') @ [last cs]"
    by (subst w(1), subst e) simp
  then have p: "p = w @ LBRACE # cs'" and lc: "last cs = RBRACE" by simp_all
  from w(2) have "LBRACE \<notin> set w"
    by (auto simp: skip_ws_Nil_iff list_all_iff json_whitespace_def char_defs)
  then have "indexOf (w @ LBRACE # (cs' @ RBRACE # t)) LBRACE = int (length w)"
    by (rule indexOf_first)
  moreover have jt': "joinedText = w @ LBRACE # (cs' @ RBRACE # t)"
    by (simp add: jt p)
  ultimately have first: "indexOf joinedText LBRACE = int (length w)" by simp
  have jt'': "joinedText = w @ (LBRACE # cs) @ t"
    by (subst e) (simp add: jt' lc)
  have j': "j + 1 = int (length w) + int (length (LBRACE # cs))"
    by (subst e) (simp add: j p)
  have sl: "slice joinedText (int (length w)) (j + 1) = LBRACE # cs"
    unfolding jt'' j' by (rule slice_middle)
  have gt: "int (length w) < j" by (simp add: j p)
  from ok' send have "try_parse_and_send res_json (LBRACE # cs) = Inr v"
    by (simp add: try_parse_and_send_Inr)
  then have "salvage_brace res_json joinedText = ([LBRACE # cs], Some v)"
    unfolding salvage_brace_def Let_def j_def [symmetric] first
    using gt pos sl by simp
  then show ?thesis by simp
qed

section \<open>The salvage parser as a chain of strategies\<close>

lemma takeWhile_length_less: "c \<in> set s \<Longrightarrow> length (takeWhile (\<lambda>x. x \<noteq> c) s) < length s"
  by (induction s) auto

lemma first_index_indexOf:
  "first_index c s = (if indexOf s c = - 1 then None else Some (nat (indexOf s c)))"
  by (simp add: first_index_def indexOf_minus1_iff indexOf_present)

lemma lastIndexOf_present:
  assumes "c \<in> set s"
  shows "lastIndexOf s c = int (length s - 1 - length (takeWhile (\<lambda>x. x \<noteq> c) (rev s)))"
proof -
  from assms have "c \<in> set (rev s)" by simp
  from takeWhile_length_less [OF this] indexOf_present [OF this] show ?thesis
    by (simp add: lastIndexOf_def Let_def)
qed

lemma last_index_lastIndexOf:
  "last_index c s = (if lastIndexOf s c = - 1 then None else Some (nat (lastIndexOf s c)))"
  by (simp add: last_index_def lastIndexOf_minus1_iff lastIndexOf_present)

lemma lastIndexOf_less: "lastIndexOf s c < int (length s)"
proof (cases "c \<in> set s")
  case True
  then have "s \<noteq> []" by auto
  then have "length s - 1 - length (takeWhile (\<lambda>x. x \<noteq> c) (rev s)) < length s"
    by (cases s) auto
  with True show ?thesis by (simp only: lastIndexOf_present of_nat_less_iff)
next
  case False
  then show ?thesis by (simp add: lastIndexOf_absent)
qed

lemma lastIndexOf_ge: "- 1 \<le> lastIndexOf s c"
  by (cases "c \<in> set s") (simp_all add: lastIndexOf_present lastIndexOf_absent)

lemma slice_span:
  assumes "0 \<le> i" "i \<le> j" "j < int (length s)"
  shows "slice s i (j + 1) = inclusive_span s (nat i) (nat j)"
  using assms by (simp add: slice_def inclusive_span_def Let_def min_def nat_diff_distrib Suc_diff_le nat_add_distrib)

lemma salvage_brace_chain:
  "salvage_brace res_json t =
     (case outer_brace_extraction t of
        None \<Rightarrow> ([], None)
      | Some c \<Rightarrow>
          (case try_parse_and_send res_json c of
             Inr v \<Rightarrow> ([c], Some v)
           | Inl e \<Rightarrow> ([c], None)))"
proof -
  let ?i = "indexOf t LBRACE" and ?j = "lastIndexOf t RBRACE"
  show ?thesis
  proof (cases "?i \<noteq> - 1 \<and> ?j \<noteq> - 1 \<and> ?j > ?i")
    case True
    with indexOf_ge [of t LBRACE] have i: "0 \<le> ?i" by linarith
    from True i have "outer_brace_extraction t = Some (inclusive_span t (nat ?i) (nat ?j))"
      by (simp add: outer_brace_extraction_def first_index_indexOf last_index_lastIndexOf)
    moreover have "slice t ?i (?j + 1) = inclusive_span t (nat ?i) (nat ?j)"
      using True i lastIndexOf_less [of t RBRACE] by (intro slice_span) simp_all
    ultimately show ?thesis using True by (simp add: salvage_brace_def Let_def)
  next
    case False
    then have "outer_brace_extraction t = None"
      using indexOf_ge [of t LBRACE] lastIndexOf_ge [of t RBRACE]
      by (auto simp: outer_brace_extraction_def first_index_indexOf last_index_lastIndexOf)
    with False show ?thesis by (auto simp: salvage_brace_def Let_def)
  qed
qed

lemma salvage_last_close_chain:
  "salvage_last_close res_json t =
     (case trailing_truncation_recovery t of
        None \<Rightarrow> ([], None)
      | Some c \<Rightarrow>
          (case try_parse_and_send res_json c of
             Inr v \<Rightarrow> ([c], Some v)
           | Inl e \<Rightarrow> ([c], None)))"
proof -
  let ?j = "lastIndexOf t RBRACE"
  show ?thesis
  proof (cases "?j > 0")
    case True
    then have "trailing_truncation_recovery t = Some (inclusive_span t 0 (nat ?j))"
      by (simp add: trailing_truncation_recovery_def last_index_lastIndexOf)
    moreover have "slice t 0 (?j + 1) = inclusive_span t (nat 0) (nat ?j)"
      using True lastIndexOf_less [of t RBRACE] by (intro slice_span) simp_all
    ultimately show ?thesis using True by (simp add: salvage_last_close_def Let_def)
  next
    case False
    then have "trailing_truncation_recovery t = None"
      using lastIndexOf_ge [of t RBRACE]
      by (auto simp: trailing_truncation_recovery_def last_index_lastIndexOf)
    with False show ?thesis by (auto simp: salvage_last_close_def Let_def)
  qed
qed

lemma JSON_parse_error: "JSON_parse t = Inl e \<Longrightarrow> e = SyntaxError t"
  by (auto simp: JSON_parse_def split: option.splits if_splits)

text \<open>
  With a \<open>res.json\<close> that sends every value it is given, the salvage parser is the ordered
  chain of the three strategies, texts tried and result.
\<close>

lemma salvage_is_chain_when_sent:
  assumes "\<And>v. res_json v = None"
  shows "salvage res_json joinedText = salvage_chain joinedText"
proof -
  have sent: "try_parse_and_send res_json t = JSON_parse t" for t
    by (simp add: try_parse_and_send_def assms split: sum.split)
  show ?thesis
  proof (cases "JSON_parse joinedText")
    case (Inr v)
    then show ?thesis by (simp add: salvage_def salvage_chain_def direct_parse_def sent)
  next
    case (Inl e)
    then have e: "e = SyntaxError joinedText" by (rule JSON_parse_error)
    have direct: "JSON_parse joinedText = Inl (SyntaxError joinedText)"
      using Inl e by simp
    show ?thesis
      by (simp add: salvage_def salvage_chain_def direct_parse_def direct sent
          salvage_brace_chain salvage_last_close_chain
          split: option.split sum.split)
  qed
qed

lemma salvage_brace_embedded:
  assumes "LBRACE \<notin> set prefix" and "RBRACE \<notin> set suffix"
  shows "salvage_brace res_json (prefix @ LBRACE # inner @ RBRACE # suffix) =
     (case try_parse_and_send res_json (LBRACE # inner @ [RBRACE]) of
        Inr v \<Rightarrow> ([LBRACE # inner @ [RBRACE]], Some v)
      | Inl e \<Rightarrow> ([LBRACE # inner @ [RBRACE]], None))"
proof -
  let ?t = "prefix @ LBRACE # inner @ RBRACE # suffix"
  have first: "indexOf ?t LBRACE = int (length prefix)"
    using assms(1) by (rule indexOf_first)
  have "lastIndexOf ((prefix @ LBRACE # inner) @ RBRACE # suffix) RBRACE
      = int (length (prefix @ LBRACE # inner))"
    using assms(2) by (rule lastIndexOf_last)
  then have last: "lastIndexOf ?t RBRACE = int (length prefix) + 1 + int (length inner)"
    by simp
  have "slice (prefix @ (LBRACE # inner @ [RBRACE]) @ suffix) (int (length prefix))
      (int (length prefix) + int (length (LBRACE # inner @ [RBRACE]))) = LBRACE # inner @ [RBRACE]"
    by (rule slice_middle)
  then have sl: "slice ?t (int (length prefix)) (int (length prefix) + 1 + int (length inner) + 1)
      = LBRACE # inner @ [RBRACE]"
    by (simp add: ac_simps)
  show ?thesis
    unfolding salvage_brace_def Let_def first last sl
    by (simp split: sum.split)
qed

lemma salvage_last_close_braced:
  "salvage_last_close res_json (LBRACE # inner @ [RBRACE]) =
     (case try_parse_and_send res_json (LBRACE # inner @ [RBRACE]) of
        Inr v \<Rightarrow> ([LBRACE # inner @ [RBRACE]], Some v)
      | Inl e \<Rightarrow> ([LBRACE # inner @ [RBRACE]], None))"
proof -
  let ?t = "LBRACE # inner @ [RBRACE]"
  have "lastIndexOf ((LBRACE # inner) @ RBRACE # []) RBRACE = int (length (LBRACE # inner))"
    by (rule lastIndexOf_last) simp
  then have last: "lastIndexOf ?t RBRACE = 1 + int (length inner)" by simp
  have "slice (?t @ []) 0 (int (length ?t)) = ?t" by (rule slice_prefix)
  then have sl: "slice ?t 0 (1 + int (length inner) + 1) = ?t" by (simp add: ac_simps)
  show ?thesis
    unfolding salvage_last_close_def Let_def last sl
    by (simp split: sum.split)
qed

text \<open>
  Claim C4. The spec expects the salvage parser to return the first successful parse and to
  attempt no later strategy after a success. In the code \<open>return res.json(extractedJSON)\<close>
  stands inside each \<open>try\<close>, so an error thrown while the parsed value is serialised is caught
  as if the parse had failed. On a text that opens and closes with a brace and parses to a
  value that \<open>res.json\<close> cannot serialise, the code parses the same text three times, once
  per strategy, and fails with the error of the serialisation; the chain of the
  specification parses it once and returns the value.
\<close>

theorem salvage_continues_after_successful_parse:
  assumes "JSON_parse (LBRACE # inner @ [RBRACE]) = Inr v"
    and "res_json v = Some thrown"
  shows "salvage res_json (LBRACE # inner @ [RBRACE]) =
           (replicate 3 (LBRACE # inner @ [RBRACE]), Inl thrown)
       \<and> salvage_chain (LBRACE # inner @ [RBRACE]) = ([LBRACE # inner @ [RBRACE]], Inr v)"
proof
  let ?t = "LBRACE # inner @ [RBRACE]"
  from assms have caught: "try_parse_and_send res_json ?t = Inl thrown"
    by (rule try_parse_and_send_thrown)
  have "salvage_brace res_json ([] @ LBRACE # inner @ RBRACE # []) = ([?t], None)"
    using caught by (subst salvage_brace_embedded) simp_all
  then have brace: "salvage_brace res_json ?t = ([?t], None)" by simp
  have close: "salvage_last_close res_json ?t = ([?t], None)"
    using caught by (simp add: salvage_last_close_braced)
  show "salvage res_json ?t = (replicate 3 ?t, Inl thrown)"
    by (simp add: salvage_def caught brace close numeral_3_eq_3)
  show "salvage_chain ?t = ([?t], Inr v)"
    using assms(1) by (simp add: salvage_chain_def direct_parse_def)
qed

text \<open>
  The text \<open>{"a":{"b":{}}}\<close>, three levels deep, and a \<open>res.json\<close> whose stack holds two.
\<close>

theorem salvage_continues_after_successful_parse_witness:
  "JSON_parse (JSON_stringify (JObj [(str ''a'', JObj [(str ''b'', JObj [])])]))
     = Inr (JObj [(str ''a'', JObj [(str ''b'', JObj [])])])
   \<and> stack_limited 2 (JObj [(str ''a'', JObj [(str ''b'', JObj [])])])
     = Some (RangeError (str ''Maximum call stack size exceeded''))
   \<and> salvage (stack_limited 2) (JSON_stringify (JObj [(str ''a'', JObj [(str ''b'', JObj [])])]))
     = (replicate 3 (JSON_stringify (JObj [(str ''a'', JObj [(str ''b'', JObj [])])])),
        Inl (RangeError (str ''Maximum call stack size exceeded'')))
   \<and> salvage_chain (JSON_stringify (JObj [(str ''a'', JObj [(str ''b'', JObj [])])]))
     = ([JSON_stringify (JObj [(str ''a'', JObj [(str ''b'', JObj [])])])],
        Inr (JObj [(str ''a'', JObj [(str ''b'', JObj [])])]))"
proof -
  define inner where "inner = stringify_members [(str ''a'', JObj [(str ''b'', JObj [])])]"
  have shape: "JSON_stringify (JObj [(str ''a'', JObj [(str ''b'', JObj [])])])
      = LBRACE # inner @ [RBRACE]"
    by (simp add: inner_def)
  have valid: "JSON_parse (JSON_stringify (JObj [(str ''a'', JObj [(str ''b'', JObj [])])]))
     = Inr (JObj [(str ''a'', JObj [(str ''b'', JObj [])])])"
    by code_simp
  have thrown: "stack_limited 2 (JObj [(str ''a'', JObj [(str ''b'', JObj [])])])
     = Some (RangeError (str ''Maximum call stack size exceeded''))"
    by (simp add: stack_limited_def)
  from valid have "JSON_parse (LBRACE # inner @ [RBRACE])
     = Inr (JObj [(str ''a'', JObj [(str ''b'', JObj [])])])"
    by (simp only: shape)
  from salvage_continues_after_successful_parse
         [where res_json = "stack_limited 2", OF this thrown] valid thrown
  show ?thesis by (simp only: shape [symmetric] simp_thms)
qed

text \<open>
  Claim C10. The trailing-truncation strategy is redundant: for every text and every
  \<open>res.json\<close> the salvage parser returns what the parser without the third strategy returns,
  the same value or the same error; and whenever the third strategy finds a value, the
  outer-brace strategy finds the same value. With a \<open>res.json\<close> that sends every value this
  says that whenever the third strategy's slice parses, the outer-brace strategy's slice
  parses to the same value.
\<close>

theorem trailing_truncation_redundant:
  "snd (salvage res_json joinedText) = salvage_without_last_close res_json joinedText \<and>
   (\<forall>v. snd (salvage_last_close res_json joinedText) = Some v \<longrightarrow>
        snd (salvage_brace res_json joinedText) = Some v)"
proof
  show "snd (salvage res_json joinedText) = salvage_without_last_close res_json joinedText"
  proof (cases "snd (salvage_last_close res_json joinedText)")
    case None
    then show ?thesis
      by (auto simp: salvage_def salvage_without_last_close_def
          split: sum.splits prod.splits option.splits)
  next
    case (Some v)
    with salvage_last_close_implies_brace [OF Some] show ?thesis
      by (auto simp: salvage_def salvage_without_last_close_def
          split: sum.splits prod.splits option.splits)
  qed
  show "\<forall>v. snd (salvage_last_close res_json joinedText) = Some v \<longrightarrow>
        snd (salvage_brace res_json joinedText) = Some v"
    by (blast intro: salvage_last_close_implies_brace)
qed

text \<open>The text \<open>{}x\<close>: the slice of the third strategy, \<open>{}\<close>, parses.\<close>

theorem trailing_truncation_redundant_witness:
  "snd (salvage_last_close sends_all (str ''{}x'')) = Some (JObj []) \<and>
   snd (salvage_brace sends_all (str ''{}x'')) = Some (JObj []) \<and>
   snd (salvage sends_all (str ''{}x'')) = salvage_without_last_close sends_all (str ''{}x'')"
proof -
  have third: "snd (salvage_last_close sends_all (str ''{}x'')) = Some (JObj [])" by code_simp
  with trailing_truncation_redundant [of sends_all "str ''{}x''"] show ?thesis by blast
qed

section \<open>JSON embedded in prose\<close>

text \<open>
  Claim C5, as the code has it. For a text \<open>prefix + {...} + suffix\<close> whose braced part parses
  to a value that \<open>res.json\<close> sends, with no \<open>{\<close> in the prefix and no \<open>}\<close> in the suffix, the
  outer-brace strategy recovers the embedded value, and the salvage parser succeeds. What
  it returns is the value of the whole text when the first \<open>try\<close> parses and sends that,
  since it comes first, and the embedded value otherwise.
\<close>

theorem outer_brace_recovers_embedded_object:
  assumes "LBRACE \<notin> set prefix" and "RBRACE \<notin> set suffix"
    and "JSON_parse (LBRACE # inner @ [RBRACE]) = Inr v"
    and "res_json v = None"
  shows "snd (salvage_brace res_json (prefix @ LBRACE # inner @ RBRACE # suffix)) = Some v \<and>
    snd (salvage res_json (prefix @ LBRACE # inner @ RBRACE # suffix)) =
      (case try_parse_and_send res_json (prefix @ LBRACE # inner @ RBRACE # suffix) of
         Inr direct \<Rightarrow> Inr direct
       | Inl parseErr \<Rightarrow> Inr v)"
proof -
  from assms(3,4) have "try_parse_and_send res_json (LBRACE # inner @ [RBRACE]) = Inr v"
    by (simp add: try_parse_and_send_Inr)
  with salvage_brace_embedded [OF assms(1,2), of res_json inner] show ?thesis
    by (simp add: salvage_def split: sum.split)
qed

text \<open>
  The text \<open>Here: {} done\<close> and a \<open>res.json\<close> whose stack holds two levels: the direct parse
  fails and the embedded object is returned.
\<close>

theorem outer_brace_recovers_embedded_object_witness:
  "LBRACE \<notin> set (str ''Here: '') \<and> RBRACE \<notin> set (str '' done'') \<and>
   JSON_parse (LBRACE # [] @ [RBRACE]) = Inr (JObj []) \<and>
   stack_limited 2 (JObj []) = None \<and>
   snd (salvage_brace (stack_limited 2) (str ''Here: '' @ LBRACE # [] @ RBRACE # str '' done''))
     = Some (JObj []) \<and>
   snd (salvage (stack_limited 2) (str ''Here: '' @ LBRACE # [] @ RBRACE # str '' done''))
     = Inr (JObj [])"
proof -
  have h1: "LBRACE \<notin> set (str ''Here: '')" by code_simp
  have h2: "RBRACE \<notin> set (str '' done'')" by code_simp
  have h3: "JSON_parse (LBRACE # [] @ [RBRACE]) = Inr (JObj [])" by code_simp
  have h4: "stack_limited 2 (JObj []) = None" by (simp add: stack_limited_def)
  have direct: "try_parse_and_send (stack_limited 2)
        (str ''Here: '' @ LBRACE # [] @ RBRACE # str '' done'')
      = Inl (SyntaxError (str ''Here: '' @ LBRACE # [] @ RBRACE # str '' done''))"
    by code_simp
  from outer_brace_recovers_embedded_object
         [where res_json = "stack_limited 2", OF h1 h2 h3 h4] h1 h2 h3 h4 direct
  show ?thesis by simp
qed

text \<open>
  Claim C5 as stated fails at \<open>[{}]\<close>: prefix \<open>[\<close> and suffix \<open>]\<close> hold no brace, the whole text
  parses and is sent, and the parser returns the array, not the embedded object.
\<close>

theorem embedded_object_counterexample:
  "LBRACE \<notin> set (str ''['') \<and> RBRACE \<notin> set (str ''['') \<and>
   LBRACE \<notin> set (str '']'') \<and> RBRACE \<notin> set (str '']'') \<and>
   JSON_parse (str ''{}'') = Inr (JObj []) \<and>
   snd (salvage sends_all (str ''['' @ str ''{}'' @ str '']'')) = Inr (JArr [JObj []]) \<and>
   snd (salvage sends_all (str ''['' @ str ''{}'' @ str '']'')) \<noteq> Inr (JObj [])"
  by code_simp

section \<open>The collector: what it emits\<close>

declare collectTextPieces.simps [simp del]

lemma collectTextPieces_simps [simp]:
  "collectTextPieces JNull out = out"
  "collectTextPieces (JBool b) out = out"
  "collectTextPieces (JNum n) out = out"
  "collectTextPieces (JStr s) out = (if s = [] then out else out @ [s])"
  "collectTextPieces (JArr els) out = collect_elements els out"
  "collectTextPieces (JObj kvs) out = collect_keys kvs out"
  by (simp_all add: collectTextPieces.simps)

text \<open>The pushes only ever append: what was in \<open>out\<close> stays in front.\<close>

lemma collect_elements_append:
  assumes "\<And>x out. x \<in> set els \<Longrightarrow> collectTextPieces x out = out @ collectTextPieces x []"
  shows "collect_elements els out = out @ collect_elements els []"
  using assms
proof (induction els arbitrary: out)
  case Nil
  show ?case by simp
next
  case (Cons el els)
  have walk: "collectTextPieces el out' = out' @ collectTextPieces el []" for out'
    by (rule Cons.prems) simp
  have rest: "collect_elements els out' = out' @ collect_elements els []" for out'
  proof (rule Cons.IH)
    fix x out''
    assume "x \<in> set els"
    then have "x \<in> set (el # els)" by simp
    then show "collectTextPieces x out'' = out'' @ collectTextPieces x []"
      by (rule Cons.prems)
  qed
  have step: "collect_elements (el # els) out'
      = out' @ collectTextPieces el [] @ collect_elements els []" for out'
  proof -
    have "collect_elements (el # els) out' = collect_elements els (collectTextPieces el out')"
      by (simp only: collect_elements.simps)
    also have "\<dots> = collectTextPieces el out' @ collect_elements els []"
      by (rule rest)
    also have "collectTextPieces el out' = out' @ collectTextPieces el []"
      by (rule walk)
    finally show ?thesis by (simp only: append_assoc)
  qed
  have "collect_elements (el # els) out = out @ (collectTextPieces el [] @ collect_elements els [])"
    by (rule step)
  also have "collectTextPieces el [] @ collect_elements els [] = collect_elements (el # els) []"
    using step [of "[]"] by (simp only: append_Nil)
  finally show ?case .
qed

lemma collect_keys_append:
  assumes "\<And>k v out. (k, v) \<in> set kvs \<Longrightarrow> collectTextPieces v out = out @ collectTextPieces v []"
  shows "collect_keys kvs out = out @ collect_keys kvs []"
  using assms
proof (induction kvs arbitrary: out)
  case Nil
  show ?case by simp
next
  case (Cons kv kvs)
  obtain k v where kv: "kv = (k, v)" by (cases kv)
  define pushed where "pushed = push_text k v"
  have push: "(case v of JStr s \<Rightarrow> if text_key_test k then out' @ [s] else out' | _ \<Rightarrow> out')
      = out' @ pushed" for out'
    unfolding pushed_def push_text_def by (cases v) auto
  have walk: "collectTextPieces v out' = out' @ collectTextPieces v []" for out'
    by (rule Cons.prems [of k]) (simp add: kv)
  have rest: "collect_keys kvs out' = out' @ collect_keys kvs []" for out'
  proof (rule Cons.IH)
    fix k' v' out''
    assume "(k', v') \<in> set kvs"
    then have "(k', v') \<in> set (kv # kvs)" by simp
    then show "collectTextPieces v' out'' = out'' @ collectTextPieces v' []"
      by (rule Cons.prems)
  qed
  have step: "collect_keys (kv # kvs) out'
      = out' @ pushed @ collectTextPieces v [] @ collect_keys kvs []" for out'
  proof -
    have "collect_keys (kv # kvs) out' = collect_keys kvs (collectTextPieces v (out' @ pushed))"
      by (simp only: kv collect_keys.simps push)
    also have "\<dots> = collectTextPieces v (out' @ pushed) @ collect_keys kvs []"
      by (rule rest)
    also have "collectTextPieces v (out' @ pushed) = (out' @ pushed) @ collectTextPieces v []"
      by (rule walk)
    finally show ?thesis by (simp only: append_assoc)
  qed
  have "collect_keys (kv # kvs) out = out @ (pushed @ collectTextPieces v [] @ collect_keys kvs [])"
    by (rule step)
  also have "pushed @ collectTextPieces v [] @ collect_keys kvs [] = collect_keys (kv # kvs) []"
    using step [of "[]"] by (simp only: append_Nil)
  finally show ?case .
qed

lemma collect_append: "collectTextPieces v out = out @ collectTextPieces v []"
proof (induction v arbitrary: out)
  case (JArr els)
  have "collect_elements els out = out @ collect_elements els []"
    by (rule collect_elements_append) (rule JArr.IH)
  then show ?case by (simp only: collectTextPieces_simps)
next
  case (JObj kvs)
  have "collect_keys kvs out = out @ collect_keys kvs []"
  proof (rule collect_keys_append)
    fix k v out'
    assume "(k, v) \<in> set kvs"
    then show "collectTextPieces v out' = out' @ collectTextPieces v []"
      by (intro JObj.IH [of "(k, v)" v out']) simp_all
  qed
  then show ?case by (simp only: collectTextPieces_simps)
qed simp_all

text \<open>
  One property with a non-empty string value: the walk of the value pushes the string
  whatever the key is, after the key test has pushed it under a text-like key.
\<close>

lemma collect_keys_string:
  "s \<noteq> [] \<Longrightarrow>
   collect_keys [(k, JStr s)] out = (if text_key_test k then out @ [s, s] else out @ [s])"
  by simp

text \<open>
  Claim C2. The spec expects the collector, on
  \<open>{"output": "hello", "nested": {"text": "world"}}\<close>, to return the two fragments
  \<open>"hello"\<close>, \<open>"world"\<close>. The code returns four: a string under a text-like key is pushed
  by the key test, and pushed again when the same value is walked as a string.
\<close>

theorem collector_example_emits_each_string_twice:
  "collectTextPieces
     (JObj [(str ''output'', JStr (str ''hello'')),
            (str ''nested'', JObj [(str ''text'', JStr (str ''world''))])]) []
   = [str ''hello'', str ''hello'', str ''world'', str ''world'']"
  by code_simp

text \<open>
  Claim C3. The spec expects only strings under keys that contain \<open>text\<close>, \<open>content\<close>,
  \<open>message\<close> or \<open>output\<close> to be emitted. The key \<open>"role"\<close> fails the test, and the code
  emits the string under it all the same, through the unconditional walk of the value.
\<close>

theorem collector_emits_string_under_other_key:
  "text_key_test (str ''role'') = False \<and>
   collectTextPieces (JObj [(str ''role'', JStr (str ''model''))]) [] = [str ''model'']"
  by code_simp

text \<open>
  Claim C6, as the code has it. A string value is emitted as exactly one fragment, appended
  to what was collected so far, unless it is the empty string: that one is falsy, the
  guard \<open>if (!obj) return out\<close> returns first, and nothing is emitted.
\<close>

theorem collector_string:
  "collectTextPieces (JStr s) out = (if s = [] then out else out @ [s])"
  by simp

text \<open>Claim C6 as stated fails at the empty string: no fragment, where the claim says one.\<close>

theorem collector_empty_string_counterexample:
  "collectTextPieces (JStr []) [] \<noteq> [[]]"
  by simp

section \<open>The handler: all strategies exhausted\<close>

lemma handler_upstream_answer:
  assumes "or_default (GEMINI_API_KEY env) [] \<noteq> []"
    and "post (build_call env (or_default (GEMINI_API_KEY env) []) pdfBuffer) = Inr data"
  shows "handler env post res_json (Some pdfBuffer) =
     (Encoded pdfBuffer # Posted (build_call env (or_default (GEMINI_API_KEY env) []) pdfBuffer)
        # fst (process_response res_json data),
      snd (process_response res_json data))"
  using assms by (simp add: handler_def Let_def split: prod.split)

lemma process_response_exhausted:
  assumes "first_candidate data = Some candidate" and "\<not> falsy candidate"
    and "joinedText = joinedText_of (textPieces_of candidate data)"
    and "JSON_parse joinedText = Inl parseErr"
    and "snd (salvage_brace res_json joinedText) = None"
    and "snd (salvage_last_close res_json joinedText) = None"
  shows "snd (process_response res_json data) =
     \<lparr>status = 500,
      body = SalvageFailure
        \<lparr>error = str ''Failed to parse JSON from Gemini response'',
         message = parseErr,
         rawPreview = slice joinedText 0 32000,
         piecesCollected = length (textPieces_of candidate data),
         usageMetadata = usage_of data,
         candidatePreview = slice (JSON_stringify candidate) 0 32000\<rparr>\<rparr>"
proof -
  from assms(4) have "try_parse_and_send res_json joinedText = Inl parseErr"
    by (rule try_parse_and_send_parse_error)
  with assms(5,6) have "snd (salvage res_json joinedText) = Inl parseErr"
    by (auto simp: salvage_def split: prod.splits option.splits)
  then obtain tried where "salvage res_json joinedText = (tried, Inl parseErr)"
    by (cases "salvage res_json joinedText") simp
  with assms(1-3) show ?thesis
    by (simp add: process_response_def Let_def)
qed

lemma usage_of_present:
  "get_property (str ''usageMetadata'') data = Some u \<Longrightarrow> \<not> falsy u \<Longrightarrow> usage_of data = u"
  by (simp add: usage_of_def truthy_or_def)

text \<open>
  Claim C7. When the upstream answered, a truthy first candidate exists and all three
  strategies fail on the joined text (the direct parse throws, and neither heuristic sends
  a value, whatever \<open>res.json\<close> is), the handler answers with status 500 and the
  salvage-failure body: the message is the error of the first, direct parse; the raw
  preview is the first 32000 code units of the joined text; \<open>piecesCollected\<close> is the number
  of pieces collected; \<open>usageMetadata\<close> is what \<open>usageMetadata || usage || null\<close> gives, which is
  the response's usage metadata whenever that is present and truthy (an object always is);
  the candidate preview is the first 32000 code units of the serialized candidate.
\<close>

theorem salvage_exhausted_response:
  assumes "or_default (GEMINI_API_KEY env) [] \<noteq> []"
    and "post (build_call env (or_default (GEMINI_API_KEY env) []) pdfBuffer) = Inr data"
    and "first_candidate data = Some candidate" and "\<not> falsy candidate"
    and "joinedText = joinedText_of (textPieces_of candidate data)"
    and "JSON_parse joinedText = Inl parseErr"
    and "snd (salvage_brace res_json joinedText) = None"
    and "snd (salvage_last_close res_json joinedText) = None"
  shows "snd (handler env post res_json (Some pdfBuffer)) =
     \<lparr>status = 500,
      body = SalvageFailure
        \<lparr>error = str ''Failed to parse JSON from Gemini response'',
         message = parseErr,
         rawPreview = slice joinedText 0 32000,
         piecesCollected = length (textPieces_of candidate data),
         usageMetadata = usage_of data,
         candidatePreview = slice (JSON_stringify candidate) 0 32000\<rparr>\<rparr>
    \<and> parseErr = SyntaxError joinedText
    \<and> length (slice joinedText 0 32000) \<le> 32000
    \<and> length (slice (JSON_stringify candidate) 0 32000) \<le> 32000
    \<and> (\<forall>u. get_property (str ''usageMetadata'') data = Some u \<and> \<not> falsy u
           \<longrightarrow> usage_of data = u)"
proof (intro conjI)
  show "snd (handler env post res_json (Some pdfBuffer)) =
     \<lparr>status = 500,
      body = SalvageFailure
        \<lparr>error = str ''Failed to parse JSON from Gemini response'',
         message = parseErr,
         rawPreview = slice joinedText 0 32000,
         piecesCollected = length (textPieces_of candidate data),
         usageMetadata = usage_of data,
         candidatePreview = slice (JSON_stringify candidate) 0 32000\<rparr>\<rparr>"
    using assms(1,2) process_response_exhausted [OF assms(3-8)]
    by (simp add: handler_upstream_answer [of env post pdfBuffer data res_json])
  show "parseErr = SyntaxError joinedText"
    using assms(6) by (rule JSON_parse_error)
  show "length (slice joinedText 0 32000) \<le> 32000"
    using slice_length [of 32000 joinedText] by simp
  show "length (slice (JSON_stringify candidate) 0 32000) \<le> 32000"
    using slice_length [of 32000 "JSON_stringify candidate"] by simp
  show "\<forall>u. get_property (str ''usageMetadata'') data = Some u \<and> \<not> falsy u
           \<longrightarrow> usage_of data = u"
    by (blast intro: usage_of_present)
qed


text \<open>
  The answer \<open>Sorry\<close>: four pieces are collected, none of the three parses succeeds, and
  the body carries the usage metadata of the response.
\<close>

theorem salvage_exhausted_response_witness:
  "snd (handler example_env (\<lambda>call. Inr refusal_response) (stack_limited 2) (Some ''%PDF'')) =
     \<lparr>status = 500,
      body = SalvageFailure
        \<lparr>error = str ''Failed to parse JSON from Gemini response'',
         message = SyntaxError (str ''Sorry\<newline>Sorry\<newline>Sorry\<newline>Sorry''),
         rawPreview = str ''Sorry\<newline>Sorry\<newline>Sorry\<newline>Sorry'',
         piecesCollected = 4,
         usageMetadata = JObj [(str ''totalTokenCount'', JNum (str ''7''))],
         candidatePreview =
           JSON_stringify
             (JObj [(str ''content'',
                     JObj [(str ''parts'', JArr [JObj [(str ''text'', JStr (str ''Sorry''))]])])])\<rparr>\<rparr>"
proof -
  let ?candidate = "JObj [(str ''content'',
                     JObj [(str ''parts'', JArr [JObj [(str ''text'', JStr (str ''Sorry''))]])])]"
  let ?joined = "str ''Sorry\<newline>Sorry\<newline>Sorry\<newline>Sorry''"
  have key: "or_default (GEMINI_API_KEY example_env) [] \<noteq> []" by code_simp
  have up: "(\<lambda>call. Inr refusal_response)
      (build_call example_env (or_default (GEMINI_API_KEY example_env) []) ''%PDF'')
      = (Inr refusal_response :: axios_error + json)" by simp
  have cand: "first_candidate refusal_response = Some ?candidate" by code_simp
  have truthy: "\<not> falsy ?candidate" by simp
  have joined: "?joined = joinedText_of (textPieces_of ?candidate refusal_response)" by code_simp
  have direct: "JSON_parse ?joined = Inl (SyntaxError ?joined)" by code_simp
  have brace: "snd (salvage_brace (stack_limited 2) ?joined) = None" by code_simp
  have close: "snd (salvage_last_close (stack_limited 2) ?joined) = None" by code_simp
  have pieces: "length (textPieces_of ?candidate refusal_response) = 4" by code_simp
  have raw: "slice ?joined 0 32000 = ?joined" by code_simp
  have preview: "slice (JSON_stringify ?candidate) 0 32000 = JSON_stringify ?candidate"
    by code_simp
  have usage: "usage_of refusal_response = JObj [(str ''totalTokenCount'', JNum (str ''7''))]"
    by code_simp
  from salvage_exhausted_response [OF key up cand truthy joined direct brace close]
  show ?thesis by (simp only: pieces raw preview usage)
qed

section \<open>The handler: usage metadata\<close>

lemma map_of_set_usage_other:
  assumes "k \<noteq> ku"
  shows "map_of (concat (map (\<lambda>(k', v). if k' = ku
                                        then (case usage of None \<Rightarrow> [] | Some u \<Rightarrow> [(k', u)])
                                        else [(k', v)]) kvs)) k
       = map_of kvs k"
proof (induction kvs)
  case Nil
  show ?case by simp
next
  case (Cons kv kvs)
  obtain k' v where kv: "kv = (k', v)" by (cases kv)
  from assms Cons show ?case by (cases usage) (simp_all add: kv)
qed

lemma first_candidate_set_usage:
  "first_candidate (set_usage usage data) = first_candidate data"
proof (cases data)
  case (JObj kvs)
  have "str ''candidates'' \<noteq> str ''usageMetadata''" by (simp add: str_def)
  then show ?thesis
    by (simp add: JObj first_candidate_def get_property_def set_usage_def
        map_of_set_usage_other)
qed (simp_all add: set_usage_def)

lemma usage_key_not_text_like: "text_key_test (str ''usageMetadata'') = False"
  by code_simp

text \<open>
  The object loop over a payload with the property set: where the property stood, the
  pieces of its value are appended, and nothing when it was removed.
\<close>

lemma collect_keys_usage:
  "collect_keys (case usage of None \<Rightarrow> [] | Some u \<Rightarrow> [(str ''usageMetadata'', u)]) out
     = out @ usage_pieces usage"
proof (cases usage)
  case None
  then show ?thesis by (simp add: usage_pieces_def)
next
  case (Some u)
  have same: "(case u of JStr s \<Rightarrow>
                 if text_key_test (str ''usageMetadata'') then out @ [s] else out
               | _ \<Rightarrow> out) = out"
    by (cases u) (simp_all add: usage_key_not_text_like)
  show ?thesis
    using collect_append [of u out] by (simp add: Some usage_pieces_def same)
qed

lemma collect_keys_concat:
  "collect_keys (kvs @ kvs') out = collect_keys kvs' (collect_keys kvs out)"
  by (induction kvs arbitrary: out) auto

lemma collect_keys_set_usage_eq:
  assumes "usage_pieces usage1 = usage_pieces usage2"
  shows "collect_keys
     (concat (map (\<lambda>(k, v). if k = str ''usageMetadata''
                               then (case usage1 of None \<Rightarrow> [] | Some u \<Rightarrow> [(k, u)])
                               else [(k, v)]) kvs)) out
   = collect_keys
     (concat (map (\<lambda>(k, v). if k = str ''usageMetadata''
                               then (case usage2 of None \<Rightarrow> [] | Some u \<Rightarrow> [(k, u)])
                               else [(k, v)]) kvs)) out"
proof (induction kvs arbitrary: out)
  case Nil
  show ?case by simp
next
  case (Cons kv kvs)
  obtain k v where kv: "kv = (k, v)" by (cases kv)
  show ?case
  proof (cases "k = str ''usageMetadata''")
    case False
    then show ?thesis using Cons.IH by (simp add: kv)
  next
    case True
    have here: "collect_keys
        (case usage of None \<Rightarrow> [] | Some u \<Rightarrow> [(str ''usageMetadata'', u)]) out
        = out @ usage_pieces usage" for usage
      by (rule collect_keys_usage)
    show ?thesis
      using Cons.IH by (simp add: kv True collect_keys_concat here assms)
  qed
qed

lemma textPieces_set_usage:
  assumes "usage_pieces usage1 = usage_pieces usage2"
  shows "textPieces_of candidate (set_usage usage1 data)
       = textPieces_of candidate (set_usage usage2 data)"
  by (cases data)
     (simp_all add: textPieces_of_def set_usage_def collect_keys_set_usage_eq [OF assms])

lemma process_response_set_usage:
  assumes "usage_pieces usage1 = usage_pieces usage2"
  shows "fst (process_response res_json (set_usage usage1 data))
         = fst (process_response res_json (set_usage usage2 data))
     \<and> hide_usage (snd (process_response res_json (set_usage usage1 data)))
         = hide_usage (snd (process_response res_json (set_usage usage2 data)))"
  by (simp add: process_response_def first_candidate_set_usage Let_def hide_usage_def
      textPieces_set_usage [OF assms, of _ data]
      split: option.split prod.split sum.split)

lemma hide_usage_extracted:
  "hide_usage res = \<lparr>status = 200, body = Extracted v\<rparr> \<longleftrightarrow>
   res = \<lparr>status = 200, body = Extracted v\<rparr>"
  by (cases res, cases "body res") (auto simp: hide_usage_def)




section \<open>The handler: a candidate whose text is valid JSON\<close>

text \<open>
  On a response of this shape the text of the candidate is collected four times, whatever
  the text is.
\<close>

lemma gemini_response_candidate:
  "first_candidate (gemini_response t) =
     Some (JObj [(str ''content'', JObj [(str ''parts'', JArr [JObj [(str ''text'', JStr t)]])])])"
  by (simp add: gemini_response_def first_candidate_def get_property_def first_of_def)

lemma gemini_response_pieces:
  assumes "t \<noteq> []"
  shows "textPieces_of
      (JObj [(str ''content'', JObj [(str ''parts'', JArr [JObj [(str ''text'', JStr t)]])])])
      (gemini_response t) = [t, t, t, t]"
proof -
  have "text_key_test (str ''text'')" by code_simp
  with assms show ?thesis
    by (simp add: textPieces_of_def gemini_response_def)
qed

text \<open>
  A parse that stopped before the end of its input reads the same value when more input
  follows. Only a number that ends the input could go on.
\<close>

lemma takeWhile_append_stop:
  "dropWhile P s \<noteq> [] \<Longrightarrow> takeWhile P (s @ x) = takeWhile P s"
  by (induction s) auto

lemma dropWhile_append_stop:
  "dropWhile P s \<noteq> [] \<Longrightarrow> dropWhile P (s @ x) = dropWhile P s @ x"
  by (induction s) auto

lemma skip_ws_more: "skip_ws s = c # cs \<Longrightarrow> skip_ws (s @ x) = c # cs @ x"
  using dropWhile_append_stop [of json_whitespace s x] by (simp add: skip_ws_def)

lemma parse_chars_more:
  "parse_chars s = Some (k, r) \<Longrightarrow> parse_chars (s @ x) = Some (k, r @ x)"
proof (induction s arbitrary: k rule: parse_chars.induct)
  case 1
  then show ?case by simp
next
  case (2 c cs)
  show ?case
  proof (cases "c = QUOTE")
    case True
    with "2.prems" show ?thesis by simp
  next
    case nq: False
    show ?thesis
    proof (cases "c = BACKSLASH")
      case False
      with nq "2.prems" obtain k' where k': "parse_chars cs = Some (k', r)" "\<not> c < 32" "k = c # k'"
        by (auto simp: push_unit_Some split: if_splits)
      with "2.IH"(3) [OF nq False k'(2) k'(1)] nq False show ?thesis
        by (simp add: push_unit_def)
    next
      case bs: True
      show ?thesis
      proof (cases cs)
        case Nil
        with nq bs "2.prems" show ?thesis by simp
      next
        case (Cons e r0)
        show ?thesis
        proof (cases "e = 117")
          case False
          with nq bs Cons "2.prems" obtain k' u
            where u: "simple_escape e = Some u" and pc: "parse_chars r0 = Some (k', r)"
              and k: "k = u # k'"
            by (auto simp: push_unit_Some split: option.splits)
          from "2.IH"(2) [OF nq bs Cons False u pc] nq bs Cons False u k show ?thesis
            by (simp add: push_unit_def)
        next
          case True
          with nq bs Cons "2.prems" obtain h1 h2 h3 h4 r' u k'
            where r0: "r0 = h1 # h2 # h3 # h4 # r'"
              and hx: "unicode_escape h1 h2 h3 h4 = Some u"
              and pc: "parse_chars r' = Some (k', r)" and k: "k = u # k'"
            by (auto simp: push_unit_Some split: list.splits option.splits)
          from "2.IH"(1) [OF nq bs Cons True r0 refl refl refl hx pc] nq bs Cons True r0 hx k
          show ?thesis by (simp add: push_unit_def)
        qed
      qed
    qed
  qed
qed

lemma parse_literal_more:
  "parse_literal w v s = Some (v', r) \<Longrightarrow> parse_literal w v (s @ x) = Some (v', r @ x)"
proof -
  assume a: "parse_literal w v s = Some (v', r)"
  then have sw: "starts_with w s" and v: "v' = v" and r: "r = drop (length w) s"
    by (auto simp: parse_literal_def split: if_splits)
  from starts_with_append [OF sw] have s: "s = w @ r" using r by simp
  have "starts_with w (w @ y)" for y by (induction w) auto
  then have "starts_with w (s @ x)" by (subst s) simp
  moreover have "drop (length w) (s @ x) = r @ x" by (subst s) simp
  ultimately show ?thesis using v by (simp add: parse_literal_def)
qed

lemma parse_integer_more:
  assumes "parse_integer s = Some (ip, r)" and "r \<noteq> []"
  shows "parse_integer (s @ x) = Some (ip, r @ x)"
proof (cases s)
  case Nil
  with assms show ?thesis by (simp add: parse_integer_def)
next
  case (Cons d ds)
  show ?thesis
  proof (cases "d = 48")
    case True
    with assms Cons show ?thesis by (auto simp: parse_integer_def)
  next
    case False
    with assms Cons have dg: "is_digit d" and ip: "ip = takeWhile is_digit s"
      and r: "r = dropWhile is_digit s"
      by (auto simp: parse_integer_def split: if_splits)
    from r assms(2) have "dropWhile is_digit s \<noteq> []" by simp
    from takeWhile_append_stop [OF this, of x] dropWhile_append_stop [OF this, of x]
    show ?thesis using Cons False dg ip r by (simp add: parse_integer_def)
  qed
qed

lemma parse_fraction_more:
  assumes "parse_fraction s = Some (fp, r)" and "r \<noteq> []"
  shows "parse_fraction (s @ x) = Some (fp, r @ x)"
proof (cases s)
  case Nil
  with assms show ?thesis by (simp add: parse_fraction_def)
next
  case (Cons c cs)
  show ?thesis
  proof (cases "c = 46")
    case False
    with assms Cons have "fp = []" "r = c # cs" by (auto simp: parse_fraction_def)
    with False show ?thesis by (simp add: Cons parse_fraction_def)
  next
    case True
    with assms Cons have ne: "takeWhile is_digit cs \<noteq> []"
      and fp: "fp = c # takeWhile is_digit cs" and r: "r = dropWhile is_digit cs"
      by (auto simp: parse_fraction_def split: if_splits)
    from r assms(2) have "dropWhile is_digit cs \<noteq> []" by simp
    from takeWhile_append_stop [OF this, of x] dropWhile_append_stop [OF this, of x]
    show ?thesis using Cons True ne fp r by (simp add: parse_fraction_def)
  qed
qed

lemma parse_sign_more:
  "parse_sign s = (sg, r) \<Longrightarrow> r \<noteq> [] \<Longrightarrow> parse_sign (s @ x) = (sg, r @ x)"
  by (cases s) (auto simp: parse_sign_def split: if_splits)

lemma parse_exponent_more:
  assumes "parse_exponent s = Some (ep, r)" and "r \<noteq> []"
  shows "parse_exponent (s @ x) = Some (ep, r @ x)"
proof (cases s)
  case Nil
  with assms show ?thesis by (simp add: parse_exponent_def)
next
  case (Cons c cs)
  show ?thesis
  proof (cases "c = 101 \<or> c = 69")
    case False
    with assms Cons have "ep = []" "r = c # cs" by (auto simp: parse_exponent_def)
    with False show ?thesis by (simp add: Cons parse_exponent_def)
  next
    case True
    obtain sg r' where sg: "parse_sign cs = (sg, r')" by (cases "parse_sign cs")
    with True assms Cons have ne: "takeWhile is_digit r' \<noteq> []"
      and ep: "ep = c # sg @ takeWhile is_digit r'" and r: "r = dropWhile is_digit r'"
      by (auto simp: parse_exponent_def split: if_splits)
    from r assms(2) have stop: "dropWhile is_digit r' \<noteq> []" by simp
    then have "r' \<noteq> []" by auto
    from parse_sign_more [OF sg this, of x] have sg': "parse_sign (cs @ x) = (sg, r' @ x)" .
    from takeWhile_append_stop [OF stop, of x] dropWhile_append_stop [OF stop, of x]
    show ?thesis using Cons True ne ep r sg' by (simp add: parse_exponent_def)
  qed
qed

lemma parse_number_more:
  assumes "parse_number s = Some (n, r)" and "r \<noteq> []"
  shows "parse_number (s @ x) = Some (n, r @ x)"
proof -
  define sign where "sign = (\<lambda>s :: jsstring. case s of [] \<Rightarrow> ([], s) | c # r \<Rightarrow> if c = 45 then ([c], r) else ([], s))"
  obtain neg s1 where neg: "sign s = (neg, s1)" by (cases "sign s")
  from assms(1) neg obtain ip s2 fp s3 ep
    where ip: "parse_integer s1 = Some (ip, s2)"
      and fp: "parse_fraction s2 = Some (fp, s3)"
      and ep: "parse_exponent s3 = Some (ep, r)"
      and n: "n = neg @ ip @ fp @ ep"
    by (auto simp: parse_number_def sign_def split: option.splits)
  from parse_exponent_reads [OF ep] assms(2) have "s3 \<noteq> []" by auto
  with parse_fraction_reads [OF fp] have "s2 \<noteq> []" by auto
  with parse_integer_reads [OF ip] have "s1 \<noteq> []" by auto
  with neg have neg': "sign (s @ x) = (neg, s1 @ x)"
    by (cases s) (auto simp: sign_def split: if_splits)
  from parse_integer_more [OF ip \<open>s2 \<noteq> []\<close>, of x]
    parse_fraction_more [OF fp \<open>s3 \<noteq> []\<close>, of x]
    parse_exponent_more [OF ep assms(2), of x] neg' n
  show ?thesis by (simp add: parse_number_def sign_def)
qed


lemma parse_more:
  "parse_value s = Some (v, r) \<Longrightarrow> r \<noteq> [] \<or> (\<forall>n. v \<noteq> JNum n)
     \<Longrightarrow> parse_value (s @ x) = Some (v, r @ x)"
  "parse_elements s1 = Some (vs, r1) \<Longrightarrow> parse_elements (s1 @ x) = Some (vs, r1 @ x)"
  "parse_members s2 = Some (kvs, r2) \<Longrightarrow> parse_members (s2 @ x) = Some (kvs, r2 @ x)"
proof (induction s and s1 and s2 arbitrary: v r and vs r1 and kvs r2
    rule: parse_value_parse_elements_parse_members.induct)
  case (1 s)
  from "1.prems"(1) obtain c cs where sk: "skip_ws s = c # cs"
    by (cases "skip_ws s") (auto simp: parse_value.simps [of s])
  note pv = "1.prems"(1) [unfolded parse_value.simps [of s] sk list.case]
  from skip_ws_more [OF sk, of x] have sk': "skip_ws (s @ x) = c # cs @ x" .
  have goal: "parse_value (s @ x) = Some (v, r @ x)"
    if "(if c = LBRACE then
          (case skip_ws (cs @ x) of
             [] \<Rightarrow> None
           | d # ds \<Rightarrow>
               if d = RBRACE then Some (JObj [], ds)
               else (case parse_members (cs @ x) of
                       None \<Rightarrow> None
                     | Some (kvs, r) \<Rightarrow> Some (make_object kvs, r)))
        else if c = LBRACKET then
          (case skip_ws (cs @ x) of
             [] \<Rightarrow> None
           | d # ds \<Rightarrow>
               if d = RBRACKET then Some (JArr [], ds)
               else (case parse_elements (cs @ x) of
                       None \<Rightarrow> None
                     | Some (vs, r) \<Rightarrow> Some (JArr vs, r)))
        else if c = QUOTE then
          (case parse_chars (cs @ x) of None \<Rightarrow> None | Some (y, r) \<Rightarrow> Some (JStr y, r))
        else if c = 116 then parse_literal (str ''true'') (JBool True) (c # cs @ x)
        else if c = 102 then parse_literal (str ''false'') (JBool False) (c # cs @ x)
        else if c = 110 then parse_literal (str ''null'') JNull (c # cs @ x)
        else (case parse_number (c # cs @ x) of None \<Rightarrow> None | Some (n, r) \<Rightarrow> Some (JNum n, r)))
       = Some (v, r @ x)"
    using that by (simp add: parse_value.simps [of "s @ x"] sk')
  show ?case
  proof (cases "c = LBRACE")
    case True
    with pv obtain d ds where sk2: "skip_ws cs = d # ds"
      by (cases "skip_ws cs") auto
    from skip_ws_more [OF sk2, of x] have sk2': "skip_ws (cs @ x) = d # ds @ x" .
    show ?thesis
    proof (cases "d = RBRACE")
      case True
      with pv \<open>c = LBRACE\<close> sk2 have "r = ds" "v = JObj []" by simp_all
      with True \<open>c = LBRACE\<close> sk2' show ?thesis by (intro goal) simp
    next
      case False
      with pv \<open>c = LBRACE\<close> sk2 obtain kvs
        where pm: "parse_members cs = Some (kvs, r)" and v: "v = make_object kvs"
        by (auto split: option.splits)
      from "1.IH"(1) [OF sk \<open>c = LBRACE\<close> sk2 False pm]
      have "parse_members (cs @ x) = Some (kvs, r @ x)" .
      with False \<open>c = LBRACE\<close> sk2' v show ?thesis by (intro goal) simp
    qed
  next
    case nb: False
    show ?thesis
    proof (cases "c = LBRACKET")
      case True
      with pv nb obtain d ds where sk2: "skip_ws cs = d # ds"
        by (cases "skip_ws cs") auto
      from skip_ws_more [OF sk2, of x] have sk2': "skip_ws (cs @ x) = d # ds @ x" .
      show ?thesis
      proof (cases "d = RBRACKET")
        case dr: True
        with pv nb True sk2 have "r = ds" "v = JArr []" by simp_all
        with dr nb True sk2' show ?thesis by (intro goal) simp
      next
        case False
        with pv nb True sk2 obtain vs
          where pe: "parse_elements cs = Some (vs, r)" and v: "v = JArr vs"
          by (auto split: option.splits)
        from "1.IH"(2) [OF sk nb True sk2 False pe]
        have "parse_elements (cs @ x) = Some (vs, r @ x)" .
        with False nb True sk2' v show ?thesis by (intro goal) simp
      qed
    next
      case nk: False
      show ?thesis
      proof (cases "c = QUOTE")
        case True
        with pv nb nk obtain y where pc: "parse_chars cs = Some (y, r)" and v: "v = JStr y"
          by (auto split: option.splits)
        from parse_chars_more [OF pc, of x] nb nk True v show ?thesis
          by (intro goal) simp
      next
        case nq: False
        consider (t) "c = 116" | (f) "c = 102" | (n) "c = 110"
          | (num) "c \<noteq> 116" "c \<noteq> 102" "c \<noteq> 110" by blast
        then show ?thesis
        proof cases
          case t
          with pv nb nk nq have "parse_literal (str ''true'') (JBool True) (c # cs) = Some (v, r)"
            by (simp add: char_defs)
          from parse_literal_more [OF this, of x] t nb nk nq show ?thesis
            by (intro goal) (simp add: char_defs)
        next
          case f
          with pv nb nk nq have "parse_literal (str ''false'') (JBool False) (c # cs) = Some (v, r)"
            by (simp add: char_defs)
          from parse_literal_more [OF this, of x] f nb nk nq show ?thesis
            by (intro goal) (simp add: char_defs)
        next
          case n
          with pv nb nk nq have "parse_literal (str ''null'') JNull (c # cs) = Some (v, r)"
            by (simp add: char_defs)
          from parse_literal_more [OF this, of x] n nb nk nq show ?thesis
            by (intro goal) (simp add: char_defs)
        next
          case num
          with pv nb nk nq obtain n where pn: "parse_number (c # cs) = Some (n, r)"
            and v: "v = JNum n"
            by (auto split: option.splits)
          with "1.prems"(2) have "r \<noteq> []" by simp
          from parse_number_more [OF pn this, of x] num nb nk nq v show ?thesis
            by (intro goal) simp
        qed
      qed
    qed
  qed
next
  case (2 s)
  from "2.prems" obtain v r0 where pv: "parse_value s = Some (v, r0)"
    by (auto simp: parse_elements.simps [of s] split: option.splits)
  note pe = "2.prems" [unfolded parse_elements_unguarded [of s] pv option.case prod.case]
  from pe obtain c cs where sk: "skip_ws r0 = c # cs"
    by (cases "skip_ws r0") auto
  then have "r0 \<noteq> []" by (auto simp: skip_ws_def)
  from "2.IH"(1) [OF pv] this have pv': "parse_value (s @ x) = Some (v, r0 @ x)" by simp
  from skip_ws_more [OF sk, of x] have sk': "skip_ws (r0 @ x) = c # cs @ x" .
  from parse_value_shorter [OF pv] have len: "length r0 < length s" .
  show ?case
  proof (cases "c = COMMA")
    case True
    with pe sk obtain vs' where pe': "parse_elements cs = Some (vs', r1)" and vs: "vs = v # vs'"
      by (auto split: option.splits)
    from "2.IH"(2) [OF pv refl len sk True pe']
    have "parse_elements (cs @ x) = Some (vs', r1 @ x)" .
    with True pv' sk' vs show ?thesis
      by (simp add: parse_elements_unguarded [of "s @ x"])
  next
    case False
    with pe sk have "c = RBRACKET" "r1 = cs" "vs = [v]" by (auto split: if_splits)
    with False pv' sk' show ?thesis
      by (simp add: parse_elements_unguarded [of "s @ x"])
  qed
next
  case (3 s)
  from "3.prems" obtain q qs where sk: "skip_ws s = q # qs"
    by (cases "skip_ws s") (auto simp: parse_members.simps [of s])
  note pm = "3.prems" [unfolded parse_members_unguarded [of s] sk list.case]
  from pm have q: "q = QUOTE" by (auto split: if_splits)
  with pm obtain k r0 where pc: "parse_chars qs = Some (k, r0)"
    by (auto split: option.splits)
  note pm1 = pm [unfolded pc option.case prod.case]
  from pm1 q obtain col rc where sk1: "skip_ws r0 = col # rc"
    by (cases "skip_ws r0") auto
  note pm2 = pm1 [unfolded sk1 list.case]
  from pm2 q have col: "col = COLON" by (auto split: if_splits)
  with pm2 q obtain v rv where pv: "parse_value rc = Some (v, rv)"
    by (auto split: option.splits)
  note pm3 = pm2 [unfolded pv option.case prod.case]
  from pm3 q col obtain c cs where sk2: "skip_ws rv = c # cs"
    by (cases "skip_ws rv") auto
  then have "rv \<noteq> []" by (auto simp: skip_ws_def)
  from parse_value_shorter [OF pv] have len: "length rv < length rc" .
  from skip_ws_more [OF sk, of x] have sk': "skip_ws (s @ x) = q # qs @ x" .
  from parse_chars_more [OF pc, of x] have pc': "parse_chars (qs @ x) = Some (k, r0 @ x)" .
  from skip_ws_more [OF sk1, of x] have sk1': "skip_ws (r0 @ x) = col # rc @ x" .
  from "3.IH"(1) [OF sk q pc refl sk1 col pv] \<open>rv \<noteq> []\<close>
  have pv': "parse_value (rc @ x) = Some (v, rv @ x)" by simp
  from skip_ws_more [OF sk2, of x] have sk2': "skip_ws (rv @ x) = c # cs @ x" .
  show ?case
  proof (cases "c = COMMA")
    case True
    with pm3 q col sk2 obtain kvs' where pm': "parse_members cs = Some (kvs', r2)"
      and kvs: "kvs = (k, v) # kvs'"
      by (auto split: option.splits)
    from "3.IH"(2) [OF sk q pc refl sk1 col pv refl len sk2 True pm']
    have "parse_members (cs @ x) = Some (kvs', r2 @ x)" .
    with True q col sk' pc' sk1' pv' sk2' kvs show ?thesis
      by (simp add: parse_members_unguarded [of "s @ x"])
  next
    case False
    with pm3 q col sk2 have "c = RBRACE" "r2 = cs" "kvs = [(k, v)]" by (auto split: if_splits)
    with False q col sk' pc' sk1' pv' sk2' show ?thesis
      by (simp add: parse_members_unguarded [of "s @ x"])
  qed
qed

text \<open>
  A text that opens and closes with a brace and parses as JSON is an object. Four copies of
  it on four lines are rejected by all three parses: after the first object the input goes
  on with a line feed and a brace.
\<close>

lemma trim_id:
  assumes "s \<noteq> []" and "\<not> js_whitespace (hd s)" and "\<not> js_whitespace (last s)"
  shows "trim s = s"
proof -
  from assms(1,2) have "dropWhile js_whitespace s = s" by (cases s) auto
  moreover from assms(1,3) have "dropWhile js_whitespace (rev s) = rev s"
    by (cases "rev s") (auto simp: hd_rev)
  ultimately show ?thesis by (simp add: trim_def)
qed

lemma JSON_parse_whole:
  assumes "JSON_parse s = Inr v" and "s \<noteq> []" and "\<not> json_whitespace (last s)"
  shows "parse_value s = Some (v, [])"
proof -
  from assms(1) obtain r where pv: "parse_value s = Some (v, r)" and r: "skip_ws r = []"
    by (auto simp: JSON_parse_def split: option.splits if_splits)
  from parse_reads(1) [OF pv] obtain p where p: "s = p @ r" by (auto simp: value_read_def)
  have "r = []"
  proof (rule ccontr)
    assume "r \<noteq> []"
    with p have "last r = last s" by simp
    moreover from r \<open>r \<noteq> []\<close> have "json_whitespace (last r)"
      by (simp add: skip_ws_Nil_iff list_all_iff)
    ultimately show False using assms(3) by simp
  qed
  with pv show ?thesis by simp
qed

lemma parse_value_object_not_number:
  assumes "parse_value (LBRACE # cs) = Some (v, r)"
  shows "v \<noteq> JNum n"
proof -
  have "skip_ws (LBRACE # cs) = LBRACE # cs"
    by (rule skip_ws_Cons) (simp add: json_whitespace_def char_defs)
  with assms show ?thesis
    by (auto simp: parse_value.simps [of "LBRACE # cs"] make_object_def Let_def
        split: list.splits if_splits option.splits)
qed

lemma repeated_object_text_fails:
  assumes "JSON_parse (LBRACE # inner @ [RBRACE]) = Inr v"
  shows "salvage res_json (join_newline (replicate 4 (LBRACE # inner @ [RBRACE]))) =
     (replicate 3 (join_newline (replicate 4 (LBRACE # inner @ [RBRACE]))),
      Inl (SyntaxError (join_newline (replicate 4 (LBRACE # inner @ [RBRACE])))))"
proof -
  define t where "t = LBRACE # inner @ [RBRACE]"
  define x where "x = NEWLINE # t @ NEWLINE # t @ NEWLINE # t"
  define J where "J = join_newline (replicate 4 t)"
  have J: "J = t @ x" by (simp add: J_def x_def numeral_eq_Suc)
  have "t \<noteq> []" and lt: "last t = RBRACE" by (simp_all add: t_def)
  have nws: "\<not> json_whitespace RBRACE" "\<not> json_whitespace LBRACE"
    by (simp_all add: json_whitespace_def char_defs)
  from assms have ok: "JSON_parse t = Inr v" by (simp add: t_def)
  from JSON_parse_whole [OF ok \<open>t \<noteq> []\<close>] lt nws have pv: "parse_value t = Some (v, [])"
    by simp
  then have "\<forall>n. v \<noteq> JNum n"
    unfolding t_def by (blast dest: parse_value_object_not_number)
  with parse_more(1) [OF pv, of x] have pv': "parse_value (t @ x) = Some (v, x)" by simp
  have "skip_ws x = skip_ws (t @ NEWLINE # t @ NEWLINE # t)"
    by (simp add: x_def skip_ws_def json_whitespace_def char_defs)
  also have "\<dots> \<noteq> []"
    by (simp add: t_def skip_ws_def nws)
  finally have "skip_ws x \<noteq> []" .
  with pv' have direct: "JSON_parse J = Inl (SyntaxError J)"
    by (simp add: JSON_parse_def J)
  obtain p where p: "J = p @ [RBRACE]" and pne: "p \<noteq> []"
  proof
    show "J = (LBRACE # inner @ RBRACE # NEWLINE # t @ NEWLINE # t @ NEWLINE # LBRACE # inner) @ [RBRACE]"
      by (simp add: J x_def t_def)
    show "LBRACE # inner @ RBRACE # NEWLINE # t @ NEWLINE # t @ NEWLINE # LBRACE # inner \<noteq> []"
      by simp
  qed
  have first: "indexOf J LBRACE = 0" by (simp add: J t_def)
  have "lastIndexOf (p @ RBRACE # []) RBRACE = int (length p)"
    by (rule lastIndexOf_last) simp
  with p have last: "lastIndexOf J RBRACE = int (length p)" by simp
  have "slice (J @ []) 0 (int (length J)) = J" by (rule slice_prefix)
  with p have sl: "slice J 0 (int (length p) + 1) = J" by (simp add: add.commute)
  from pne have pos: "0 < int (length p)" by simp
  from direct have caught: "try_parse_and_send res_json J = Inl (SyntaxError J)"
    by (rule try_parse_and_send_parse_error)
  have brace: "salvage_brace res_json J = ([J], None)"
    using pos by (simp add: salvage_brace_def Let_def first last sl caught)
  have close: "salvage_last_close res_json J = ([J], None)"
    using pos by (simp add: salvage_last_close_def Let_def last sl caught)
  have "salvage res_json J = ([J, J, J], Inl (SyntaxError J))"
    by (simp add: salvage_def caught brace close)
  then show ?thesis by (simp add: J_def t_def numeral_eq_Suc)
qed


lemma gemini_response_usage: "usage_of (gemini_response t) = JNull"
  by (simp add: usage_of_def gemini_response_def get_property_def truthy_or_def str_def)

text \<open>
  Claim C1. The spec expects that when the first candidate's text part is valid JSON of the
  schema's shape, the handler returns that JSON. It does not, for any such text. On the
  response \<open>{"candidates":[{"content":{"parts":[{"text": t}]}}]}\<close>, where \<open>t\<close> is any text
  that opens with a brace, closes with a brace and parses as JSON, the handler answers with
  status 500: the text is collected twice from the candidate (by the key test and by the
  walk) and twice more from the whole response, the joined text is four copies of \<open>t\<close> on
  four lines, and none of the three parses accepts that. The message is the one of the
  direct parse, four pieces are reported, and the previews are the first 32000 units of the
  joined text and of the serialized candidate.
\<close>

theorem candidate_object_text_is_rejected:
  assumes "JSON_parse (LBRACE # inner @ [RBRACE]) = Inr v"
    and "or_default (GEMINI_API_KEY env) [] \<noteq> []"
  shows "snd (handler env (\<lambda>call. Inr (gemini_response (LBRACE # inner @ [RBRACE])))
               res_json (Some pdfBuffer)) =
     \<lparr>status = 500,
      body = SalvageFailure
        \<lparr>error = str ''Failed to parse JSON from Gemini response'',
         message = SyntaxError (join_newline (replicate 4 (LBRACE # inner @ [RBRACE]))),
         rawPreview = slice (join_newline (replicate 4 (LBRACE # inner @ [RBRACE]))) 0 32000,
         piecesCollected = 4,
         usageMetadata = JNull,
         candidatePreview =
           slice (JSON_stringify
                    (JObj [(str ''content'',
                            JObj [(str ''parts'',
                                   JArr [JObj [(str ''text'',
                                                JStr (LBRACE # inner @ [RBRACE]))]])])]))
             0 32000\<rparr>\<rparr>"
proof -
  define t where "t = LBRACE # inner @ [RBRACE]"
  define candidate where "candidate =
    JObj [(str ''content'', JObj [(str ''parts'', JArr [JObj [(str ''text'', JStr t)]])])]"
  define J where "J = join_newline (replicate 4 t)"
  have "t \<noteq> []" by (simp add: t_def)
  then have pieces: "textPieces_of candidate (gemini_response t) = [t, t, t, t]"
    unfolding candidate_def by (rule gemini_response_pieces)
  have J4: "J = join_newline [t, t, t, t]" by (simp add: J_def numeral_eq_Suc)
  have "J \<noteq> []" "hd J = LBRACE" "last J = RBRACE" by (simp_all add: J4 t_def)
  then have "trim J = J"
    by (intro trim_id) (simp_all add: js_whitespace_def char_defs)
  with pieces J4 have joined: "joinedText_of (textPieces_of candidate (gemini_response t)) = J"
    by (simp add: joinedText_of_def)
  from repeated_object_text_fails [OF assms(1)]
  have failed: "salvage res_json J = (replicate 3 J, Inl (SyntaxError J))"
    by (simp add: J_def t_def)
  have cand: "first_candidate (gemini_response t) = Some candidate"
    unfolding candidate_def by (rule gemini_response_candidate)
  have "\<not> falsy candidate" by (simp add: candidate_def)
  with cand joined failed pieces
  have "snd (process_response res_json (gemini_response t)) =
     \<lparr>status = 500,
      body = SalvageFailure
        \<lparr>error = str ''Failed to parse JSON from Gemini response'',
         message = SyntaxError J,
         rawPreview = slice J 0 32000,
         piecesCollected = 4,
         usageMetadata = JNull,
         candidatePreview = slice (JSON_stringify candidate) 0 32000\<rparr>\<rparr>"
    by (simp add: process_response_def Let_def gemini_response_usage)
  moreover have "snd (handler env (\<lambda>call. Inr (gemini_response t)) res_json (Some pdfBuffer))
      = snd (process_response res_json (gemini_response t))"
    using assms(2) by (simp add: handler_upstream_answer)
  ultimately have "snd (handler env (\<lambda>call. Inr (gemini_response t)) res_json (Some pdfBuffer)) =
     \<lparr>status = 500,
      body = SalvageFailure
        \<lparr>error = str ''Failed to parse JSON from Gemini response'',
         message = SyntaxError J,
         rawPreview = slice J 0 32000,
         piecesCollected = 4,
         usageMetadata = JNull,
         candidatePreview = slice (JSON_stringify candidate) 0 32000\<rparr>\<rparr>"
    by (simp only:)
  then show ?thesis unfolding J_def candidate_def t_def .
qed

theorem candidate_object_text_is_rejected_witness:
  "JSON_parse (JSON_stringify example_statement) = Inr example_statement \<and>
   snd (handler example_env
          (\<lambda>call. Inr (gemini_response (JSON_stringify example_statement)))
          sends_all (Some ''%PDF'')) =
     \<lparr>status = 500,
      body = SalvageFailure
        \<lparr>error = str ''Failed to parse JSON from Gemini response'',
         message = SyntaxError (join_newline (replicate 4 (JSON_stringify example_statement))),
         rawPreview = join_newline (replicate 4 (JSON_stringify example_statement)),
         piecesCollected = 4,
         usageMetadata = JNull,
         candidatePreview =
           JSON_stringify
             (JObj [(str ''content'',
                     JObj [(str ''parts'',
                            JArr [JObj [(str ''text'',
                                         JStr (JSON_stringify example_statement))]])])])\<rparr>\<rparr>"
proof -
  define inner where "inner = stringify_members
    [(str ''statement_info'', JObj [(str ''bank_name'', JStr (str ''ACME''))]),
     (str ''account_summary'', JObj [(str ''total_deposits'', JStr (str ''10''))]),
     (str ''transactions'', JArr [JObj [(str ''amount'', JStr (str ''-5''))]])]"
  have shape: "JSON_stringify example_statement = LBRACE # inner @ [RBRACE]"
    by (simp add: example_statement_def inner_def)
  have valid: "JSON_parse (JSON_stringify example_statement) = Inr example_statement"
    by code_simp
  have key: "or_default (GEMINI_API_KEY example_env) [] \<noteq> []" by code_simp
  have raw: "slice (join_newline (replicate 4 (JSON_stringify example_statement))) 0 32000
      = join_newline (replicate 4 (JSON_stringify example_statement))"
    by code_simp
  have preview: "slice (JSON_stringify
        (JObj [(str ''content'',
                JObj [(str ''parts'',
                       JArr [JObj [(str ''text'',
                                    JStr (JSON_stringify example_statement))]])])])) 0 32000
      = JSON_stringify
        (JObj [(str ''content'',
                JObj [(str ''parts'',
                       JArr [JObj [(str ''text'',
                                    JStr (JSON_stringify example_statement))]])])])"
    by code_simp
  from valid have "JSON_parse (LBRACE # inner @ [RBRACE]) = Inr example_statement"
    by (simp only: shape)
  from candidate_object_text_is_rejected [OF this key, of sends_all "''%PDF''"] valid
  show ?thesis by (simp only: shape [symmetric] raw preview simp_thms)
qed

section \<open>The handler: a request without a document\<close>

text \<open>
  Claim C8. A request with no uploaded document is answered with status 400 and the error
  body, and the trace is empty: nothing was encoded, nothing was posted to the upstream,
  nothing was parsed.
\<close>

theorem missing_document_short_circuits:
  "handler env post res_json None =
     ([], \<lparr>status = 400, body = ErrorOnly (str ''No PDF file uploaded.'')\<rparr>)"
  by (simp add: handler_def)

end
